theory Spec2Isabelle
  imports Main
begin

section \<open>Strings of UTF-16 code units\<close>

text \<open>
  A JavaScript string is a sequence of UTF-16 code units. The model keeps every code unit as a
  natural number, so that the white space and line terminator classes of ECMAScript, which lie
  partly outside ASCII, are the ones the regular expression of \<^verbatim>\<open>iterateUris\<close> sees.
  \<open>js\<close> reads an ASCII literal as such a string.
\<close>

type_synonym code_unit = nat
type_synonym jsstring = "code_unit list"

definition js :: "string \<Rightarrow> jsstring" where
  "js = map of_char"

text \<open>ECMAScript \<^verbatim>\<open>LineTerminator\<close>: LF, CR, LS, PS.\<close>

definition isLineTerminator :: "code_unit \<Rightarrow> bool" where
  "isLineTerminator c \<longleftrightarrow> c = 10 \<or> c = 13 \<or> c = 8232 \<or> c = 8233"

text \<open>ECMAScript \<^verbatim>\<open>WhiteSpace\<close>: TAB, VT, FF, ZWNBSP and the category Zs.\<close>

definition isWhiteSpace :: "code_unit \<Rightarrow> bool" where
  "isWhiteSpace c \<longleftrightarrow>
     c = 9 \<or> c = 11 \<or> c = 12 \<or> c = 32 \<or> c = 160 \<or> c = 5760 \<or> (8192 \<le> c \<and> c \<le> 8202)
     \<or> c = 8239 \<or> c = 8287 \<or> c = 12288 \<or> c = 65279"

text \<open>The class \<^verbatim>\<open>\s\<close>; \<^verbatim>\<open>\S\<close> is its complement.\<close>

definition isSpace :: "code_unit \<Rightarrow> bool" where
  "isSpace c \<longleftrightarrow> isWhiteSpace c \<or> isLineTerminator c"

text \<open>
  \<^verbatim>\<open>Canonicalize\<close> under the flag \<^verbatim>\<open>i\<close> without \<^verbatim>\<open>u\<close>: a code unit is
  replaced by its upper case. ECMAScript never lets a code unit from 128 on canonicalize to one
  below 128, and every pattern character of the regular expression below is ASCII, so only the
  ASCII letters matter for what it matches.
\<close>

definition canonicalize :: "code_unit \<Rightarrow> code_unit" where
  "canonicalize c = (if 97 \<le> c \<and> c \<le> 122 then c - 32 else c)"

definition substring :: "jsstring \<Rightarrow> nat \<Rightarrow> nat \<Rightarrow> jsstring" where
  "substring s a b = take (b - a) (drop a s)"

text \<open>\<^verbatim>\<open>String.prototype.startsWith\<close>, case sensitive.\<close>

definition startsWith :: "jsstring \<Rightarrow> jsstring \<Rightarrow> bool" where
  "startsWith s p \<longleftrightarrow> take (length p) s = p"

text \<open>
  \<^verbatim>\<open>String.prototype.indexOf(pat, start)\<close>: the least position from \<open>start\<close> (clamped to
  the length) where \<open>pat\<close> occurs, and \<open>-1\<close> when there is none.
\<close>

definition indexOf :: "jsstring \<Rightarrow> jsstring \<Rightarrow> nat \<Rightarrow> int" where
  "indexOf str pat start =
     (case find (\<lambda>k. take (length pat) (drop k str) = pat)
                [min start (length str) ..< length str + 1] of
        None \<Rightarrow> - 1
      | Some k \<Rightarrow> int k)"

section \<open>The backtracking matcher of regular expressions\<close>

text \<open>
  The pattern language is the part of ECMAScript's that the source uses: character classes
  (\<open>Atom\<close>, a list of class members), the assertion \<^verbatim>\<open>^\<close>, sequence, alternation, the greedy
  quantifiers \<^verbatim>\<open>?\<close>, \<^verbatim>\<open>*\<close>, \<^verbatim>\<open>+\<close> and capture groups. The flags \<^verbatim>\<open>i\<close> and
  \<^verbatim>\<open>m\<close> of the source's regular expression are built into \<open>cls_match\<close> and \<open>Bol\<close>.
\<close>

datatype cls = Ch code_unit | Rng code_unit code_unit | WS | NWS

datatype regex =
    Atom "cls list"
  | Bol
  | Seq regex regex
  | Alt regex regex
  | Opt regex
  | Star regex
  | Plus regex
  | Group nat regex

type_synonym captures = "nat \<Rightarrow> (nat \<times> nat) option"
type_synonym mstate = "nat \<times> captures"

text \<open>
  A class member matches a code unit when some element of the member has the same canonical
  form as the code unit (flag \<^verbatim>\<open>i\<close>).
\<close>

fun cls_match :: "cls \<Rightarrow> code_unit \<Rightarrow> bool" where
  "cls_match (Ch x) c = (canonicalize x = canonicalize c)"
| "cls_match (Rng lo hi) c = list_ex (\<lambda>a. canonicalize a = canonicalize c) [lo ..< hi + 1]"
| "cls_match WS c = isSpace c"
| "cls_match NWS c = (\<not> isSpace c)"

fun groups :: "regex \<Rightarrow> nat list" where
  "groups (Atom a) = []"
| "groups Bol = []"
| "groups (Seq a b) = groups a @ groups b"
| "groups (Alt a b) = groups a @ groups b"
| "groups (Opt r) = groups r"
| "groups (Star r) = groups r"
| "groups (Plus r) = groups r"
| "groups (Group n r) = n # groups r"

text \<open>Every iteration of a quantifier starts with the captures of its body cleared.\<close>

definition reset :: "nat list \<Rightarrow> captures \<Rightarrow> captures" where
  "reset ns c = (\<lambda>n. if n \<in> set ns then None else c n)"

fun weight :: "regex \<Rightarrow> nat" where
  "weight (Atom a) = 0"
| "weight Bol = 0"
| "weight (Seq a b) = Suc (weight a + weight b)"
| "weight (Alt a b) = Suc (weight a + weight b)"
| "weight (Opt r) = Suc (weight r)"
| "weight (Star r) = Suc (weight r)"
| "weight (Plus r) = Suc (Suc (weight r))"
| "weight (Group n r) = Suc (weight r)"

text \<open>
  \<open>ms r s (i, c)\<close> lists, in the order in which backtracking tries them, the states (end
  position and captures) in which \<open>r\<close> can finish when started at position \<open>i\<close> of \<open>s\<close> with
  captures \<open>c\<close>: the left alternative before the right one, one more iteration of a greedy
  quantifier before stopping. An optional iteration that consumes nothing is rejected, as
  ECMAScript's \<^verbatim>\<open>RepeatMatcher\<close> does. The first state of the list is the match.

  The bounds \<open>j \<le> length s\<close> of \<open>Star\<close> and \<open>i \<le> length s\<close> of \<open>Bol\<close> hold of every
  state the matcher reaches from a position within the string (lemma \<open>ms_bounds\<close> below);
  the first is what the termination proof measures, the second keeps \<open>s ! (i - 1)\<close> in range.
\<close>

function ms :: "regex \<Rightarrow> jsstring \<Rightarrow> mstate \<Rightarrow> mstate list" where
  "ms (Atom a) s (i, c) =
     (if i < length s \<and> list_ex (\<lambda>x. cls_match x (s ! i)) a then [(i + 1, c)] else [])"
| "ms Bol s (i, c) =
     (if i = 0 then [(i, c)]
      else if i \<le> length s \<and> isLineTerminator (s ! (i - 1)) then [(i, c)] else [])"
| "ms (Seq a b) s st = concat (map (ms b s) (ms a s st))"
| "ms (Alt a b) s st = ms a s st @ ms b s st"
| "ms (Opt r) s (i, c) =
     filter (\<lambda>(j, c'). j \<noteq> i) (ms r s (i, reset (groups r) c)) @ [(i, c)]"
| "ms (Star r) s (i, c) =
     concat (map (ms (Star r) s)
                 (filter (\<lambda>(j, c'). i < j \<and> j \<le> length s) (ms r s (i, reset (groups r) c))))
     @ [(i, c)]"
| "ms (Plus r) s (i, c) =
     concat (map (ms (Star r) s) (ms r s (i, reset (groups r) c)))"
| "ms (Group n r) s (i, c) =
     map (\<lambda>(j, c'). (j, c'(n \<mapsto> (i, j)))) (ms r s (i, c))"
  by pat_completeness auto
termination
  by (relation "inv_image (less_than <*lex*> less_than)
        (\<lambda>(r, s, i, c). (weight r, length s - i))") auto

text \<open>
  The result of \<^verbatim>\<open>RegExp.prototype.exec\<close>: the index of the match, the index after it
  (the new \<^verbatim>\<open>lastIndex\<close> of a global expression) and the captures.
\<close>

record rmatch =
  index :: nat
  endIndex :: nat
  caps :: captures

text \<open>
  \<^verbatim>\<open>exec\<close> of a global expression tries the start positions from \<^verbatim>\<open>lastIndex\<close> to the
  length of the string, in this order, and fails beyond.
\<close>

function exec_from :: "regex \<Rightarrow> jsstring \<Rightarrow> nat \<Rightarrow> rmatch option" where
  "exec_from r s i =
     (if length s < i then None
      else case ms r s (i, Map.empty) of
             [] \<Rightarrow> exec_from r s (i + 1)
           | (e, c) # _ \<Rightarrow> Some \<lparr>index = i, endIndex = e, caps = c\<rparr>)"
  by pat_completeness auto
termination
  by (relation "measure (\<lambda>(r, s, i). Suc (length s) - i)") auto

declare exec_from.simps [simp del]

text \<open>\<^verbatim>\<open>match[k]\<close>: the text of capture \<open>k\<close>, \<open>None\<close> for \<^verbatim>\<open>undefined\<close>.\<close>

definition group :: "jsstring \<Rightarrow> rmatch \<Rightarrow> nat \<Rightarrow> jsstring option" where
  "group s m k = map_option (\<lambda>(a, b). substring s a b) (caps m k)"

section \<open>The regular expression of \<^verbatim>\<open>iterateUris\<close>\<close>

definition lit :: "char \<Rightarrow> regex" where
  "lit x = Atom [Ch (of_char x)]"

text \<open>\<^verbatim>\<open>[a-z0-9]\<close>\<close>

definition alnum :: regex where
  "alnum = Atom [Rng (of_char CHR ''a'') (of_char CHR ''z''),
                 Rng (of_char CHR ''0'') (of_char CHR ''9'')]"

text \<open>\<^verbatim>\<open>https?:\/\/[\S]+\<close>, capture 3.\<close>

definition scheme_re :: regex where
  "scheme_re =
     Seq (lit CHR ''h'') (Seq (lit CHR ''t'') (Seq (lit CHR ''t'') (Seq (lit CHR ''p'')
     (Seq (Opt (lit CHR ''s''))
     (Seq (lit CHR '':'') (Seq (lit CHR ''/'') (Seq (lit CHR ''/'')
     (Plus (Atom [NWS])))))))))"

text \<open>\<^verbatim>\<open>[a-z][a-z0-9]*(\.[a-z0-9]+)+\<close>, the named capture \<^verbatim>\<open>domain\<close> (capture 5).\<close>

definition domain_re :: regex where
  "domain_re =
     Seq (Atom [Rng (of_char CHR ''a'') (of_char CHR ''z'')])
     (Seq (Star alnum)
          (Plus (Group 6 (Seq (lit CHR ''.'') (Plus alnum)))))"

text \<open>\<^verbatim>\<open>^|\s|\(\<close>, capture 1.\<close>

definition prefix_re :: regex where
  "prefix_re = Alt Bol (Alt (Atom [WS]) (lit CHR ''(''))"

text \<open>The two forms of a link, capture 2; capture 4 is the bare-domain form.\<close>

definition link_re :: regex where
  "link_re = Alt (Group 3 scheme_re) (Group 4 (Seq (Group 5 domain_re) (Star (Atom [NWS]))))"

text \<open>
  \<^verbatim>\<open>/(^|\s|\()((https?:\/\/[\S]+)|((?<domain>[a-z][a-z0-9]*(\.[a-z0-9]+)+)[\S]*))/gim\<close>
\<close>

definition URI_RE :: regex where
  "URI_RE = Seq (Group 1 prefix_re) (Group 2 link_re)"

section \<open>\<^verbatim>\<open>iterateUris\<close>\<close>

datatype error = TypeError

text \<open>
  What one iteration of the loop has computed when it reaches the callback: \<^verbatim>\<open>from\<close>,
  \<^verbatim>\<open>to\<close> and the local \<^verbatim>\<open>uri\<close>. The callback of the source receives the first two.
\<close>

record candidate =
  cfrom :: int
  cto :: int
  uri :: jsstring

text \<open>
  Lines 142 to 149. \<open>isValidDomain\<close> is imported from \<^verbatim>\<open>lib/strings/url-helpers\<close> and is a
  parameter here. \<open>Inr None\<close> is \<^verbatim>\<open>continue\<close>; reading a property of an undefined
  \<^verbatim>\<open>match[2]\<close> would throw.
\<close>

definition resolve_uri :: "(jsstring \<Rightarrow> bool) \<Rightarrow> jsstring \<Rightarrow> rmatch \<Rightarrow> error + jsstring option" where
  "resolve_uri isValidDomain str m =
     (case group str m 2 of
        None \<Rightarrow> Inl TypeError
      | Some uri0 \<Rightarrow>
          if \<not> startsWith uri0 (js ''http'') then
            (case group str m 5 of
               None \<Rightarrow> Inr None
             | Some domain \<Rightarrow>
                 if domain = [] \<or> \<not> isValidDomain domain then Inr None
                 else Inr (Some (js ''https://'' @ uri0)))
          else Inr (Some uri0))"

text \<open>\<^verbatim>\<open>/[.,;!?]$/.test(uri)\<close>\<close>

definition ends_with_punct :: "jsstring \<Rightarrow> bool" where
  "ends_with_punct u \<longleftrightarrow> u \<noteq> [] \<and> last u \<in> set (js ''.,;!?'')"

text \<open>\<^verbatim>\<open>/[)]$/.test(uri) && !uri.includes('(')\<close>\<close>

definition ends_with_unopened_paren :: "jsstring \<Rightarrow> bool" where
  "ends_with_unopened_paren u \<longleftrightarrow>
     (u \<noteq> [] \<and> last u = of_char CHR '')'') \<and> \<not> (of_char CHR ''('' \<in> set u)"

text \<open>The body of the loop, lines 142 to 161.\<close>

definition loop_body :: "(jsstring \<Rightarrow> bool) \<Rightarrow> jsstring \<Rightarrow> rmatch \<Rightarrow> error + candidate option" where
  "loop_body isValidDomain str m =
     (case resolve_uri isValidDomain str m of
        Inl e \<Rightarrow> Inl e
      | Inr None \<Rightarrow> Inr None
      | Inr (Some uri0) \<Rightarrow>
          (case group str m 2 of
             None \<Rightarrow> Inl TypeError
           | Some m2 \<Rightarrow>
               let from = indexOf str m2 (index m);
                   to = from + int (length m2) + 1;
                   (uri1, to1) = (if ends_with_punct uri0 then (butlast uri0, to - 1)
                                  else (uri0, to));
                   (uri2, to2) = (if ends_with_unopened_paren uri1 then (butlast uri1, to1 - 1)
                                  else (uri1, to1))
               in Inr (Some \<lparr>cfrom = from, cto = to2, uri = uri2\<rparr>)))"

text \<open>
  The loop \<^verbatim>\<open>while ((match = re.exec(str)))\<close>. The expression is global, so each call of
  \<^verbatim>\<open>exec\<close> starts at the end of the last match. Nothing in the loop bounds its iterations,
  so it is a partial function: \<open>None\<close> is a loop that never ends. \<open>cb\<close> sees the whole
  candidate; \<open>st\<close> is the state the callback works on.
\<close>

partial_function (option) uri_loop ::
  "(jsstring \<Rightarrow> bool) \<Rightarrow> jsstring \<Rightarrow> (candidate \<Rightarrow> 'st \<Rightarrow> 'st) \<Rightarrow> nat \<Rightarrow> 'st \<Rightarrow> (error + 'st) option"
where
  "uri_loop isValidDomain str cb lastIndex st =
     (case exec_from URI_RE str lastIndex of
        None \<Rightarrow> Some (Inr st)
      | Some m \<Rightarrow>
          (case loop_body isValidDomain str m of
             Inl e \<Rightarrow> Some (Inl e)
           | Inr None \<Rightarrow> uri_loop isValidDomain str cb (endIndex m) st
           | Inr (Some c) \<Rightarrow> uri_loop isValidDomain str cb (endIndex m) (cb c st)))"

definition iterateUris ::
  "(jsstring \<Rightarrow> bool) \<Rightarrow> jsstring \<Rightarrow> (int \<Rightarrow> int \<Rightarrow> 'st \<Rightarrow> 'st) \<Rightarrow> 'st \<Rightarrow> (error + 'st) option" where
  "iterateUris isValidDomain str cb st =
     uri_loop isValidDomain str (\<lambda>c. cb (cfrom c) (cto c)) 0 st"

text \<open>The spans a call emits: the arguments of the callback, in the order of the calls.\<close>

definition emitted_spans :: "(jsstring \<Rightarrow> bool) \<Rightarrow> jsstring \<Rightarrow> (error + (int \<times> int) list) option" where
  "emitted_spans isValidDomain str =
     iterateUris isValidDomain str (\<lambda>from to acc. acc @ [(from, to)]) []"

text \<open>The same run, observed with the local \<^verbatim>\<open>uri\<close> of every iteration that emits.\<close>

definition candidates :: "(jsstring \<Rightarrow> bool) \<Rightarrow> jsstring \<Rightarrow> (error + candidate list) option" where
  "candidates isValidDomain str = uri_loop isValidDomain str (\<lambda>c acc. acc @ [c]) 0 []"

subsection \<open>The trimming steps as the spec words them\<close>

text \<open>
  The two trimming steps in the spec's words: strip one trailing code unit out of
  \<^verbatim>\<open>. , ; ! ?\<close> and shrink \<^verbatim>\<open>to\<close> by one; then strip a trailing \<^verbatim>\<open>)\<close> when the text
  holds no \<^verbatim>\<open>(\<close>, and shrink \<^verbatim>\<open>to\<close> by one.
\<close>

definition spec_strip_punct :: "jsstring \<times> int \<Rightarrow> jsstring \<times> int" where
  "spec_strip_punct = (\<lambda>(u, to).
     if u \<noteq> [] \<and> last u \<in> of_char ` {CHR ''.'', CHR '','', CHR '';'', CHR ''!'', CHR ''?''}
     then (butlast u, to - 1) else (u, to))"

definition spec_strip_paren :: "jsstring \<times> int \<Rightarrow> jsstring \<times> int" where
  "spec_strip_paren = (\<lambda>(u, to).
     if u \<noteq> [] \<and> last u = of_char CHR '')'' \<and> of_char CHR ''('' \<notin> set u
     then (butlast u, to - 1) else (u, to))"

section \<open>The decorations of a document\<close>

text \<open>
  The editor library (TipTap and ProseMirror) is not part of the sources. What
  \<^verbatim>\<open>getDecorations\<close> asks of it is a parameter: \<^verbatim>\<open>findChildren\<close>, which lists the nodes
  of a document that satisfy a predicate with their positions, the name of a node's type and
  a node's \<^verbatim>\<open>textContent\<close>.
\<close>

record 'n NodeWithPos =
  node :: 'n
  pos :: int

record ('d, 'n) editor =
  findChildren :: "'d \<Rightarrow> ('n \<Rightarrow> bool) \<Rightarrow> 'n NodeWithPos list"
  type_name :: "'n \<Rightarrow> string"
  textContent :: "'n \<Rightarrow> jsstring"

text \<open>\<^verbatim>\<open>Decoration.inline(from, to, {class: ...})\<close>\<close>

record decoration =
  dfrom :: int
  dto :: int
  dclass :: string

definition Decoration_inline :: "int \<Rightarrow> int \<Rightarrow> string \<Rightarrow> decoration" where
  "Decoration_inline from to cl = \<lparr>dfrom = from, dto = to, dclass = cl\<rparr>"

text \<open>
  \<^verbatim>\<open>DecorationSet\<close> of \<^verbatim>\<open>@tiptap/pm/view\<close> is not part of the sources either. The
  spec's decoration set is the ordered collection of the decorations of the current revision,
  and the position mapping of a change sends a position to its new position, or reports it
  as deleted (\<open>None\<close>).
\<close>

type_synonym 'd DecorationSet = "decoration list"

type_synonym mapping = "int \<Rightarrow> int option"

text \<open>
  Modelled from the spec: \<^verbatim>\<open>DecorationSet.create\<close>, of the editor library, is missing; the
  set it builds holds the decorations it is given, in their order.
\<close>

definition DecorationSet_create :: "'d \<Rightarrow> decoration list \<Rightarrow> 'd DecorationSet" where
  "DecorationSet_create doc decorations = decorations"

text \<open>
  Modelled from the spec: the remapping of one decoration by \<^verbatim>\<open>DecorationSet.map\<close>, of the
  editor library, is missing; \<^verbatim>\<open>from\<close> and \<^verbatim>\<open>to\<close> go through the position translation
  and the style class is kept; there is no result when either position is reported as deleted.
\<close>

definition map_decoration :: "mapping \<Rightarrow> decoration \<Rightarrow> decoration option" where
  "map_decoration f d =
     (case f (dfrom d) of
        None \<Rightarrow> None
      | Some from' \<Rightarrow>
          (case f (dto d) of
             None \<Rightarrow> None
           | Some to' \<Rightarrow> Some (d\<lparr>dfrom := from', dto := to'\<rparr>)))"

text \<open>
  Modelled from the spec: \<^verbatim>\<open>DecorationSet.map\<close>, of the editor library, is missing; it
  remaps every decoration of the set and drops those with a deleted position.
\<close>

definition DecorationSet_map :: "'d DecorationSet \<Rightarrow> mapping \<Rightarrow> 'd \<Rightarrow> 'd DecorationSet" where
  "DecorationSet_map decorationSet f doc = List.map_filter (map_decoration f) decorationSet"

text \<open>
  \<^verbatim>\<open>Array.prototype.forEach\<close> with a callback that works on a state and may not return or
  may throw.
\<close>

fun forEach :: "('a \<Rightarrow> 'st \<Rightarrow> (error + 'st) option) \<Rightarrow> 'a list \<Rightarrow> 'st \<Rightarrow> (error + 'st) option" where
  "forEach f [] st = Some (Inr st)"
| "forEach f (x # xs) st =
     (case f x st of
        None \<Rightarrow> None
      | Some (Inl e) \<Rightarrow> Some (Inl e)
      | Some (Inr st') \<Rightarrow> forEach f xs st')"

text \<open>Lines 93 to 112. The state of the two callbacks is the array \<^verbatim>\<open>decorations\<close>.\<close>

definition getDecorations ::
  "('d, 'n) editor \<Rightarrow> (jsstring \<Rightarrow> bool) \<Rightarrow> 'd \<Rightarrow> (error + 'd DecorationSet) option" where
  "getDecorations ed isValidDomain doc =
     (case forEach
             (\<lambda>paragraphNode decorations.
                iterateUris isValidDomain (textContent ed (node paragraphNode))
                  (\<lambda>from to decorations.
                     decorations @
                       [Decoration_inline (pos paragraphNode + from) (pos paragraphNode + to)
                          ''autolink''])
                  decorations)
             (findChildren ed doc (\<lambda>node. type_name ed node = ''paragraph''))
             [] of
        None \<Rightarrow> None
      | Some (Inl e) \<Rightarrow> Some (Inl e)
      | Some (Inr decorations) \<Rightarrow> Some (Inr (DecorationSet_create doc decorations)))"

section \<open>The plugin state\<close>

text \<open>What \<^verbatim>\<open>apply\<close> reads of a transaction.\<close>

record 'd transaction =
  docChanged :: bool
  doc :: 'd
  mapping :: mapping

text \<open>\<^verbatim>\<open>init: (_, {doc}) => getDecorations(doc)\<close>\<close>

definition linkDecorator_init ::
  "('d, 'n) editor \<Rightarrow> (jsstring \<Rightarrow> bool) \<Rightarrow> 'd \<Rightarrow> (error + 'd DecorationSet) option" where
  "linkDecorator_init ed isValidDomain d = getDecorations ed isValidDomain d"

text \<open>Lines 120 to 125.\<close>

definition linkDecorator_apply ::
  "('d, 'n) editor \<Rightarrow> (jsstring \<Rightarrow> bool) \<Rightarrow> 'd transaction \<Rightarrow> 'd DecorationSet
     \<Rightarrow> (error + 'd DecorationSet) option" where
  "linkDecorator_apply ed isValidDomain tr decorationSet =
     (if docChanged tr then getDecorations ed isValidDomain (doc tr)
      else Some (Inr (DecorationSet_map decorationSet (mapping tr) (doc tr))))"

text \<open>
  A small editor for concrete documents: a document is the list of its top-level blocks, each
  with the name of its type and its text. A block occupies its text and two more positions,
  as a ProseMirror node with inline content does.
\<close>

type_synonym flat_node = "string \<times> jsstring"

fun flat_children :: "int \<Rightarrow> flat_node list \<Rightarrow> flat_node NodeWithPos list" where
  "flat_children p [] = []"
| "flat_children p (n # ns) =
     \<lparr>node = n, pos = p\<rparr> # flat_children (p + int (length (snd n)) + 2) ns"

definition flat_editor :: "(flat_node list, flat_node) editor" where
  "flat_editor =
     \<lparr>findChildren = (\<lambda>d P. filter (\<lambda>np. P (node np)) (flat_children 0 d)),
      type_name = fst,
      textContent = snd\<rparr>"

definition flat_text :: "flat_node list \<Rightarrow> jsstring" where
  "flat_text d = concat (map snd d)"

text \<open>Three domain predicates for concrete runs.\<close>

definition all_valid :: "jsstring \<Rightarrow> bool" where
  "all_valid d = True"

definition none_valid :: "jsstring \<Rightarrow> bool" where
  "none_valid d = False"

definition only_good :: "jsstring \<Rightarrow> bool" where
  "only_good d \<longleftrightarrow> d = js ''good.y''"

section \<open>What the matcher guarantees\<close>

text \<open>
  Three measures of a pattern: the least number of code units a match consumes, a property
  of every code unit it can consume, and a property of the first one.
\<close>


fun minlen :: "regex \<Rightarrow> nat" where
  "minlen (Atom a) = 1"
| "minlen Bol = 0"
| "minlen (Seq a b) = minlen a + minlen b"
| "minlen (Alt a b) = min (minlen a) (minlen b)"
| "minlen (Opt r) = 0"
| "minlen (Star r) = 0"
| "minlen (Plus r) = minlen r"
| "minlen (Group n r) = minlen r"

fun atoms_sat :: "(code_unit \<Rightarrow> bool) \<Rightarrow> regex \<Rightarrow> bool" where
  "atoms_sat Q (Atom a) = (\<forall>x \<in> set a. \<forall>c. cls_match x c \<longrightarrow> Q c)"
| "atoms_sat Q Bol = True"
| "atoms_sat Q (Seq a b) = (atoms_sat Q a \<and> atoms_sat Q b)"
| "atoms_sat Q (Alt a b) = (atoms_sat Q a \<and> atoms_sat Q b)"
| "atoms_sat Q (Opt r) = atoms_sat Q r"
| "atoms_sat Q (Star r) = atoms_sat Q r"
| "atoms_sat Q (Plus r) = atoms_sat Q r"
| "atoms_sat Q (Group n r) = atoms_sat Q r"

fun first_sat :: "(code_unit \<Rightarrow> bool) \<Rightarrow> regex \<Rightarrow> bool" where
  "first_sat Q (Atom a) = (\<forall>x \<in> set a. \<forall>c. cls_match x c \<longrightarrow> Q c)"
| "first_sat Q Bol = False"
| "first_sat Q (Seq a b) = first_sat Q a"
| "first_sat Q (Alt a b) = (first_sat Q a \<and> first_sat Q b)"
| "first_sat Q (Opt r) = False"
| "first_sat Q (Star r) = False"
| "first_sat Q (Plus r) = first_sat Q r"
| "first_sat Q (Group n r) = first_sat Q r"

lemma in_ms_Atom:
  "st' \<in> set (ms (Atom a) s (i, c)) \<longleftrightarrow>
     i < length s \<and> (\<exists>x \<in> set a. cls_match x (s ! i)) \<and> st' = (i + 1, c)"
  by (auto simp: list_ex_iff)

lemma in_ms_Bol:
  "st' \<in> set (ms Bol s (i, c)) \<longleftrightarrow>
     (i = 0 \<or> i \<le> length s \<and> isLineTerminator (s ! (i - 1))) \<and> st' = (i, c)"
  by auto

lemma in_ms_Seq:
  "st' \<in> set (ms (Seq a b) s st) \<longleftrightarrow> (\<exists>x \<in> set (ms a s st). st' \<in> set (ms b s x))"
  by auto

lemma in_ms_Alt:
  "st' \<in> set (ms (Alt a b) s st) \<longleftrightarrow> st' \<in> set (ms a s st) \<or> st' \<in> set (ms b s st)"
  by auto

lemma in_ms_Opt:
  "st' \<in> set (ms (Opt r) s (i, c)) \<longleftrightarrow>
     st' = (i, c) \<or> st' \<in> set (ms r s (i, reset (groups r) c)) \<and> fst st' \<noteq> i"
  by auto

lemma in_ms_Star:
  "st' \<in> set (ms (Star r) s (i, c)) \<longleftrightarrow>
     st' = (i, c) \<or>
     (\<exists>x \<in> set (filter (\<lambda>(j, c'). i < j \<and> j \<le> length s) (ms r s (i, reset (groups r) c))).
        st' \<in> set (ms (Star r) s x))"
  by (subst ms.simps(6)) (auto simp del: ms.simps)

lemma in_ms_Plus:
  "st' \<in> set (ms (Plus r) s (i, c)) \<longleftrightarrow>
     (\<exists>x \<in> set (ms r s (i, reset (groups r) c)). st' \<in> set (ms (Star r) s x))"
  by (subst ms.simps(7)) (auto simp del: ms.simps)

lemma in_ms_Group:
  "st' \<in> set (ms (Group n r) s (i, c)) \<longleftrightarrow>
     (\<exists>x \<in> set (ms r s (i, c)). st' = (fst x, (snd x)(n \<mapsto> (i, fst x))))"
  by (force simp: image_iff split: prod.splits)

declare ms.simps [simp del]


lemma ms_minlen: "st' \<in> set (ms r s st) \<Longrightarrow> fst st + minlen r \<le> fst st'"
proof (induction r s st arbitrary: st' rule: ms.induct)
  case (1 a s i c)
  then show ?case unfolding in_ms_Atom by simp
next
  case (2 s i c)
  then show ?case unfolding in_ms_Bol by simp
next
  case (3 a b s st)
  from "3.prems" obtain x where x: "x \<in> set (ms a s st)" "st' \<in> set (ms b s x)"
    unfolding in_ms_Seq by blast
  from "3.IH"(1)[OF x(1)] "3.IH"(2)[OF x] show ?case by simp
next
  case (4 a b s st)
  from "4.prems" have "st' \<in> set (ms a s st) \<or> st' \<in> set (ms b s st)"
    unfolding in_ms_Alt .
  then show ?case using "4.IH"(1)[of st'] "4.IH"(2)[of st'] by auto
next
  case (5 r s i c)
  from "5.prems" have "st' = (i, c) \<or> st' \<in> set (ms r s (i, reset (groups r) c))"
    unfolding in_ms_Opt by blast
  then show ?case using "5.IH"[of st'] by auto
next
  case (6 r s i c)
  from "6.prems" consider "st' = (i, c)"
    | x where "x \<in> set (filter (\<lambda>(j, c'). i < j \<and> j \<le> length s) (ms r s (i, reset (groups r) c)))"
        "st' \<in> set (ms (Star r) s x)"
    unfolding in_ms_Star by blast
  then show ?case
  proof cases
    case 1
    then show ?thesis by simp
  next
    case 2
    from "6.IH"(2)[OF 2] 2(1) show ?thesis by auto
  qed
next
  case (7 r s i c)
  from "7.prems" obtain x where x: "x \<in> set (ms r s (i, reset (groups r) c))"
      "st' \<in> set (ms (Star r) s x)"
    unfolding in_ms_Plus by blast
  from "7.IH"(1)[OF x(1)] "7.IH"(2)[OF x] show ?case by simp
next
  case (8 n r s i c)
  from "8.prems" obtain x where x: "x \<in> set (ms r s (i, c))" "fst st' = fst x"
    unfolding in_ms_Group by auto
  from "8.IH"[OF x(1)] x(2) show ?case by simp
qed

lemma ms_mono: "st' \<in> set (ms r s st) \<Longrightarrow> fst st \<le> fst st'"
  using ms_minlen[of st' r s st] by simp

lemma ms_bounds: "st' \<in> set (ms r s st) \<Longrightarrow> fst st \<le> length s \<Longrightarrow> fst st' \<le> length s"
proof (induction r s st arbitrary: st' rule: ms.induct)
  case (1 a s i c)
  then show ?case unfolding in_ms_Atom by simp
next
  case (2 s i c)
  then show ?case unfolding in_ms_Bol by simp
next
  case (3 a b s st)
  from "3.prems" obtain x where x: "x \<in> set (ms a s st)" "st' \<in> set (ms b s x)"
    unfolding in_ms_Seq by blast
  from "3.IH"(1)[OF x(1) "3.prems"(2)] have "fst x \<le> length s" .
  from "3.IH"(2)[OF x this] show ?case .
next
  case (4 a b s st)
  from "4.prems" have "st' \<in> set (ms a s st) \<or> st' \<in> set (ms b s st)"
    unfolding in_ms_Alt by simp
  then show ?case using "4.IH"(1)[of st'] "4.IH"(2)[of st'] "4.prems"(2) by auto
next
  case (5 r s i c)
  from "5.prems" have "st' = (i, c) \<or> st' \<in> set (ms r s (i, reset (groups r) c))"
    unfolding in_ms_Opt by blast
  then show ?case using "5.IH"[of st'] "5.prems"(2) by auto
next
  case (6 r s i c)
  from "6.prems" consider "st' = (i, c)"
    | x where "x \<in> set (filter (\<lambda>(j, c'). i < j \<and> j \<le> length s) (ms r s (i, reset (groups r) c)))"
        "st' \<in> set (ms (Star r) s x)"
    unfolding in_ms_Star by blast
  then show ?case
  proof cases
    case 1
    then show ?thesis using "6.prems" by simp
  next
    case 2
    from 2(1) have "fst x \<le> length s" by auto
    from "6.IH"(2)[OF 2 this] show ?thesis .
  qed
next
  case (7 r s i c)
  from "7.prems" obtain x where x: "x \<in> set (ms r s (i, reset (groups r) c))"
      "st' \<in> set (ms (Star r) s x)"
    unfolding in_ms_Plus by blast
  from "7.IH"(1)[OF x(1)] "7.prems" have "fst x \<le> length s" by simp
  from "7.IH"(2)[OF x this] show ?case .
next
  case (8 n r s i c)
  from "8.prems" obtain x where x: "x \<in> set (ms r s (i, c))" "fst st' = fst x"
    unfolding in_ms_Group by auto
  from "8.IH"[OF x(1)] x(2) "8.prems"(2) show ?case by simp
qed

lemma ms_frame: "st' \<in> set (ms r s st) \<Longrightarrow> n \<notin> set (groups r) \<Longrightarrow> snd st' n = snd st n"
proof (induction r s st arbitrary: st' rule: ms.induct)
  case (1 a s i c)
  then show ?case unfolding in_ms_Atom by simp
next
  case (2 s i c)
  then show ?case unfolding in_ms_Bol by simp
next
  case (3 a b s st)
  from "3.prems" obtain x where x: "x \<in> set (ms a s st)" "st' \<in> set (ms b s x)"
    unfolding in_ms_Seq by blast
  from "3.prems"(2) have n: "n \<notin> set (groups a)" "n \<notin> set (groups b)" by auto
  from "3.IH"(1)[OF x(1) n(1)] "3.IH"(2)[OF x n(2)] show ?case by simp
next
  case (4 a b s st)
  from "4.prems" have "st' \<in> set (ms a s st) \<or> st' \<in> set (ms b s st)"
    unfolding in_ms_Alt by simp
  moreover from "4.prems"(2) have "n \<notin> set (groups a)" "n \<notin> set (groups b)" by auto
  ultimately show ?case using "4.IH"(1)[of st'] "4.IH"(2)[of st'] by auto
next
  case (5 r s i c)
  from "5.prems" have "st' = (i, c) \<or> st' \<in> set (ms r s (i, reset (groups r) c))"
    unfolding in_ms_Opt by blast
  moreover from "5.prems"(2) have "n \<notin> set (groups r)" by simp
  ultimately show ?case using "5.IH"[of st'] by (auto simp: reset_def)
next
  case (6 r s i c)
  from "6.prems" consider "st' = (i, c)"
    | x where "x \<in> set (filter (\<lambda>(j, c'). i < j \<and> j \<le> length s) (ms r s (i, reset (groups r) c)))"
        "st' \<in> set (ms (Star r) s x)"
    unfolding in_ms_Star by blast
  then show ?case
  proof cases
    case 1
    then show ?thesis by simp
  next
    case 2
    from 2(1) have x: "x \<in> set (ms r s (i, reset (groups r) c))" by auto
    from "6.prems"(2) have n: "n \<notin> set (groups r)" by simp
    from "6.IH"(1)[OF x n] n have "snd x n = c n" by (simp add: reset_def)
    with "6.IH"(2)[OF 2 "6.prems"(2)] show ?thesis by simp
  qed
next
  case (7 r s i c)
  from "7.prems" obtain x where x: "x \<in> set (ms r s (i, reset (groups r) c))"
      "st' \<in> set (ms (Star r) s x)"
    unfolding in_ms_Plus by blast
  from "7.prems"(2) have n: "n \<notin> set (groups r)" "n \<notin> set (groups (Star r))" by simp_all
  from "7.IH"(1)[OF x(1) n(1)] n have "snd x n = c n" by (simp add: reset_def)
  with "7.IH"(2)[OF x n(2)] show ?case by simp
next
  case (8 k r s i c)
  from "8.prems"(1) obtain x where x: "x \<in> set (ms r s (i, c))"
      "st' = (fst x, (snd x)(k \<mapsto> (i, fst x)))"
    unfolding in_ms_Group by auto
  from "8.prems"(2) have n: "n \<noteq> k" "n \<notin> set (groups r)" by auto
  from "8.IH"[OF x(1) n(2)] x(2) n(1) show ?case by simp
qed

lemma ms_first:
  "st' \<in> set (ms r s st) \<Longrightarrow> first_sat Q r \<Longrightarrow> fst st < length s \<and> Q (s ! fst st)"
proof (induction r s st arbitrary: st' rule: ms.induct)
  case (1 a s i c)
  then show ?case unfolding in_ms_Atom by auto
next
  case (2 s i c)
  then show ?case by simp
next
  case (3 a b s st)
  from "3.prems" obtain x where x: "x \<in> set (ms a s st)" "st' \<in> set (ms b s x)"
    unfolding in_ms_Seq by blast
  from "3.prems"(2) have "first_sat Q a" by simp
  from "3.IH"(1)[OF x(1) this] show ?case .
next
  case (4 a b s st)
  from "4.prems" have "st' \<in> set (ms a s st) \<or> st' \<in> set (ms b s st)"
    unfolding in_ms_Alt by simp
  moreover from "4.prems"(2) have "first_sat Q a" "first_sat Q b" by auto
  ultimately show ?case using "4.IH"(1)[of st'] "4.IH"(2)[of st'] by auto
next
  case (5 r s i c)
  then show ?case by simp
next
  case (6 r s i c)
  then show ?case by simp
next
  case (7 r s i c)
  from "7.prems" obtain x where x: "x \<in> set (ms r s (i, reset (groups r) c))"
      "st' \<in> set (ms (Star r) s x)"
    unfolding in_ms_Plus by blast
  from "7.prems"(2) have "first_sat Q r" by simp
  from "7.IH"(1)[OF x(1) this] show ?case by simp
next
  case (8 n r s i c)
  from "8.prems"(1) obtain x where x: "x \<in> set (ms r s (i, c))"
    unfolding in_ms_Group by auto
  from "8.prems"(2) have "first_sat Q r" by simp
  from "8.IH"[OF x this] show ?case .
qed

lemma ms_chars:
  "st' \<in> set (ms r s st) \<Longrightarrow> atoms_sat Q r \<Longrightarrow> fst st \<le> k \<Longrightarrow> k < fst st' \<Longrightarrow> Q (s ! k)"
proof (induction r s st arbitrary: st' k rule: ms.induct)
  case (1 a s i c)
  from "1.prems"(1) have *: "i < length s" "\<exists>x \<in> set a. cls_match x (s ! i)" "st' = (i + 1, c)"
    unfolding in_ms_Atom by simp_all
  with "1.prems"(3,4) have "k = i" by simp
  with * "1.prems"(2) show ?case by auto
next
  case (2 s i c)
  then show ?case unfolding in_ms_Bol by simp
next
  case (3 a b s st)
  from "3.prems" obtain x where x: "x \<in> set (ms a s st)" "st' \<in> set (ms b s x)"
    unfolding in_ms_Seq by blast
  from "3.prems"(2) have q: "atoms_sat Q a" "atoms_sat Q b" by simp_all
  show ?case
  proof (cases "k < fst x")
    case True
    from "3.IH"(1)[OF x(1) q(1) "3.prems"(3) True] show ?thesis .
  next
    case False
    then have "fst x \<le> k" by simp
    from "3.IH"(2)[OF x q(2) this "3.prems"(4)] show ?thesis .
  qed
next
  case (4 a b s st)
  from "4.prems" have "st' \<in> set (ms a s st) \<or> st' \<in> set (ms b s st)"
    unfolding in_ms_Alt by simp
  moreover from "4.prems"(2) have "atoms_sat Q a" "atoms_sat Q b" by auto
  ultimately show ?case
    using "4.IH"(1)[of st' k] "4.IH"(2)[of st' k] "4.prems"(3,4) by auto
next
  case (5 r s i c)
  from "5.prems" have "st' = (i, c) \<or> st' \<in> set (ms r s (i, reset (groups r) c))"
    unfolding in_ms_Opt by blast
  moreover from "5.prems"(2) have "atoms_sat Q r" by simp
  ultimately show ?case using "5.IH"[of st' k] "5.prems"(3,4) by auto
next
  case (6 r s i c)
  from "6.prems" consider "st' = (i, c)"
    | x where "x \<in> set (filter (\<lambda>(j, c'). i < j \<and> j \<le> length s) (ms r s (i, reset (groups r) c)))"
        "st' \<in> set (ms (Star r) s x)"
    unfolding in_ms_Star by blast
  then show ?case
  proof cases
    case 1
    then show ?thesis using "6.prems" by simp
  next
    case 2
    from 2(1) have x: "x \<in> set (ms r s (i, reset (groups r) c))" by auto
    from "6.prems"(2) have q: "atoms_sat Q r" by simp
    show ?thesis
    proof (cases "k < fst x")
      case True
      from "6.IH"(1)[OF x q _ True] "6.prems"(3) show ?thesis by simp
    next
      case False
      then have "fst x \<le> k" by simp
      from "6.IH"(2)[OF 2 "6.prems"(2) this "6.prems"(4)] show ?thesis .
    qed
  qed
next
  case (7 r s i c)
  from "7.prems" obtain x where x: "x \<in> set (ms r s (i, reset (groups r) c))"
      "st' \<in> set (ms (Star r) s x)"
    unfolding in_ms_Plus by blast
  from "7.prems"(2) have q: "atoms_sat Q r" "atoms_sat Q (Star r)" by simp_all
  show ?case
  proof (cases "k < fst x")
    case True
    from "7.IH"(1)[OF x(1) q(1) _ True] "7.prems"(3) show ?thesis by simp
  next
    case False
    then have "fst x \<le> k" by simp
    from "7.IH"(2)[OF x q(2) this "7.prems"(4)] show ?thesis .
  qed
next
  case (8 n r s i c)
  from "8.prems"(1) obtain x where x: "x \<in> set (ms r s (i, c))" "fst st' = fst x"
    unfolding in_ms_Group by auto
  from "8.prems"(2) have "atoms_sat Q r" by simp
  from "8.IH"[OF x(1) this, of k] "8.prems"(3,4) x(2) show ?case by simp
qed

section \<open>The matches of the expression\<close>

text \<open>The ASCII letters: what \<^verbatim>\<open>[a-z]\<close> and a letter of the pattern match under the flag \<^verbatim>\<open>i\<close>.\<close>

definition isLetter :: "code_unit \<Rightarrow> bool" where
  "isLetter c \<longleftrightarrow> 65 \<le> c \<and> c \<le> 90 \<or> 97 \<le> c \<and> c \<le> 122"

lemma isLetter_not_space: "isLetter c \<Longrightarrow> \<not> isSpace c"
  by (auto simp: isLetter_def isSpace_def isWhiteSpace_def isLineTerminator_def)

lemma cls_match_Rng:
  "cls_match (Rng lo hi) c \<longleftrightarrow> (\<exists>a. lo \<le> a \<and> a \<le> hi \<and> canonicalize a = canonicalize c)"
  by (auto simp: list_ex_iff)


lemma cls_match_az: "cls_match (Rng 97 122) c \<Longrightarrow> isLetter c"
  unfolding cls_match_Rng canonicalize_def isLetter_def
  by (auto split: if_splits)

lemma cls_match_09: "cls_match (Rng 48 57) c \<Longrightarrow> \<not> isSpace c"
  unfolding cls_match_Rng canonicalize_def isSpace_def isWhiteSpace_def isLineTerminator_def
  by (auto split: if_splits)

lemma cls_match_Ch_letter: "cls_match (Ch x) c \<Longrightarrow> isLetter x \<Longrightarrow> isLetter c"
  by (auto simp: canonicalize_def isLetter_def split: if_splits)

lemma cls_match_WS: "cls_match WS c = isSpace c"
  by simp

lemma cls_match_NWS: "cls_match NWS c = (\<not> isSpace c)"
  by simp

lemma cls_match_Ch_other: "cls_match (Ch x) c \<Longrightarrow> \<not> isLetter x \<Longrightarrow> c = x"
  by (auto simp: canonicalize_def isLetter_def split: if_splits)

declare cls_match.simps [simp del]

lemma minlen_link_re: "minlen link_re = 3"
  by (simp add: link_re_def scheme_re_def domain_re_def lit_def alnum_def)

lemma first_link_re: "first_sat isLetter link_re"
proof -
  have h: "\<And>c. cls_match (Ch 104) c \<Longrightarrow> isLetter c"
    using cls_match_Ch_letter[of 104] by (simp add: isLetter_def)
  show ?thesis
    using h cls_match_az
    by (simp add: link_re_def scheme_re_def domain_re_def lit_def)
qed

lemma atoms_link_re: "atoms_sat (\<lambda>c. \<not> isSpace c) link_re"
proof -
  have l: "\<And>x c. isLetter x \<Longrightarrow> cls_match (Ch x) c \<Longrightarrow> \<not> isSpace c"
    using cls_match_Ch_letter isLetter_not_space by blast
  have o: "\<And>x c. \<not> isLetter x \<Longrightarrow> \<not> isSpace x \<Longrightarrow> cls_match (Ch x) c \<Longrightarrow> \<not> isSpace c"
    using cls_match_Ch_other by blast
  have az: "\<And>c. cls_match (Rng 97 122) c \<Longrightarrow> \<not> isSpace c"
    using cls_match_az isLetter_not_space by blast
  have h: "\<And>c. cls_match (Ch 104) c \<Longrightarrow> \<not> isSpace c" using l[of 104] by (simp add: isLetter_def)
  have t: "\<And>c. cls_match (Ch 116) c \<Longrightarrow> \<not> isSpace c" using l[of 116] by (simp add: isLetter_def)
  have p: "\<And>c. cls_match (Ch 112) c \<Longrightarrow> \<not> isSpace c" using l[of 112] by (simp add: isLetter_def)
  have s: "\<And>c. cls_match (Ch 115) c \<Longrightarrow> \<not> isSpace c" using l[of 115] by (simp add: isLetter_def)
  have colon: "\<And>c. cls_match (Ch 58) c \<Longrightarrow> \<not> isSpace c"
    using o[of 58] by (simp add: isLetter_def isSpace_def isWhiteSpace_def isLineTerminator_def)
  have slash: "\<And>c. cls_match (Ch 47) c \<Longrightarrow> \<not> isSpace c"
    using o[of 47] by (simp add: isLetter_def isSpace_def isWhiteSpace_def isLineTerminator_def)
  have dot: "\<And>c. cls_match (Ch 46) c \<Longrightarrow> \<not> isSpace c"
    using o[of 46] by (simp add: isLetter_def isSpace_def isWhiteSpace_def isLineTerminator_def)
  show ?thesis
    using h t p s colon slash dot az cls_match_09
    by (simp add: link_re_def scheme_re_def domain_re_def lit_def alnum_def cls_match_NWS)
qed

lemma exec_from_sound:
  "exec_from r s li = Some m \<Longrightarrow>
     li \<le> index m \<and> index m \<le> length s \<and> (endIndex m, caps m) \<in> set (ms r s (index m, Map.empty))"
proof (induction r s li rule: exec_from.induct)
  case (1 r s i)
  show ?case
  proof (cases "ms r s (i, Map.empty)")
    case Nil
    with "1.prems" have le: "\<not> length s < i" and ex: "exec_from r s (i + 1) = Some m"
      by (auto simp: exec_from.simps[of r s i] split: if_splits)
    from "1.IH"[OF le Nil ex] show ?thesis by simp
  next
    case (Cons x xs)
    with "1.prems" have "\<not> length s < i" "m = \<lparr>index = i, endIndex = fst x, caps = snd x\<rparr>"
      by (auto simp: exec_from.simps[of r s i] split: if_splits prod.splits)
    with Cons show ?thesis by simp
  qed
qed

text \<open>The shape of every match of the expression of \<^verbatim>\<open>iterateUris\<close>.\<close>

lemma uri_match_shape:
  assumes "exec_from URI_RE s li = Some m"
  shows "\<exists>p. caps m 2 = Some (p, endIndex m)
           \<and> li \<le> index m
           \<and> (p = index m \<and> (p = 0 \<or> isLineTerminator (s ! (p - 1)))
              \<or> p = index m + 1 \<and> (isSpace (s ! index m) \<or> s ! index m = 40))
           \<and> p + 3 \<le> endIndex m \<and> endIndex m \<le> length s
           \<and> isLetter (s ! p)
           \<and> (\<forall>k. p \<le> k \<and> k < endIndex m \<longrightarrow> \<not> isSpace (s ! k))"
proof -
  from exec_from_sound[OF assms]
  have li: "li \<le> index m" and il: "index m \<le> length s"
    and mem: "(endIndex m, caps m) \<in> set (ms URI_RE s (index m, Map.empty))"
    by simp_all
  from mem obtain x y where
    x: "x \<in> set (ms prefix_re s (index m, Map.empty))" and
    y: "y \<in> set (ms link_re s (fst x, (snd x)(1 \<mapsto> (index m, fst x))))" and
    e: "endIndex m = fst y" and c: "caps m = (snd y)(2 \<mapsto> (fst x, fst y))"
    unfolding URI_RE_def in_ms_Seq by (auto simp: in_ms_Group)
  let ?p = "fst x"
  from x have px: "?p = index m \<and> (?p = 0 \<or> isLineTerminator (s ! (?p - 1)))
              \<or> ?p = index m + 1 \<and> index m < length s \<and> (isSpace (s ! index m) \<or> s ! index m = 40)"
    unfolding prefix_re_def lit_def in_ms_Alt in_ms_Bol in_ms_Atom
    by (auto dest: cls_match_Ch_other simp: isLetter_def cls_match_WS)
  then have pl: "?p \<le> length s" using il by auto
  from ms_minlen[OF y] have len: "?p + 3 \<le> fst y" by (simp add: minlen_link_re)
  from ms_bounds[OF y] pl have bnd: "fst y \<le> length s" by simp
  from ms_first[OF y first_link_re] have fst: "isLetter (s ! ?p)" by simp
  from ms_chars[OF y atoms_link_re] have ch: "\<forall>k. ?p \<le> k \<and> k < fst y \<longrightarrow> \<not> isSpace (s ! k)"
    by simp
  from c e have "caps m 2 = Some (?p, endIndex m)" by simp
  with li px len bnd fst ch e show ?thesis by auto
qed


lemma indexOf_at:
  assumes "p < e" "e \<le> length s"
      and "start = p \<or> start + 1 = p \<and> s ! start \<noteq> s ! p"
  shows "indexOf s (substring s p e) start = int p"
proof -
  let ?pat = "substring s p e"
  let ?P = "\<lambda>k. take (length ?pat) (drop k s) = ?pat"
  from assms have len: "length ?pat = e - p" by (simp add: substring_def)
  have Pp: "?P p" unfolding len by (simp add: substring_def)
  from assms(3) show ?thesis
  proof
    assume "start = p"
    with assms have "[min start (length s) ..< length s + 1] = p # [p + 1 ..< length s + 1]"
      by (simp add: upt_conv_Cons)
    with Pp show ?thesis by (simp add: indexOf_def)
  next
    assume a: "start + 1 = p \<and> s ! start \<noteq> s ! p"
    with assms have u: "[min start (length s) ..< length s + 1] = start # p # [p + 1 ..< length s + 1]"
      by (simp add: upt_conv_Cons)
    have "\<not> ?P start"
    proof
      assume "?P start"
      then have "take (length ?pat) (drop start s) ! 0 = ?pat ! 0" by simp
      with assms a len show False by (simp add: substring_def)
    qed
    with Pp u show ?thesis by (simp add: indexOf_def)
  qed
qed

text \<open>Where capture 2, the link text, starts.\<close>

definition gstart :: "rmatch \<Rightarrow> nat" where
  "gstart m = (case caps m 2 of None \<Rightarrow> 0 | Some (a, b) \<Rightarrow> a)"

lemma uri_match_facts:
  assumes "exec_from URI_RE s li = Some m"
  shows "caps m 2 = Some (gstart m, endIndex m)"
    and "li \<le> index m" and "index m \<le> gstart m"
    and "gstart m + 3 \<le> endIndex m" and "endIndex m \<le> length s"
    and "gstart m = 0 \<or> isSpace (s ! (gstart m - 1)) \<or> s ! (gstart m - 1) = 40"
    and "gstart m = index m \<and> (index m = 0 \<or> isLineTerminator (s ! (index m - 1)))
         \<or> gstart m = index m + 1 \<and> s ! index m \<noteq> s ! gstart m"
    and "\<not> isSpace (s ! (endIndex m - 1))"
proof -
  from uri_match_shape[OF assms] obtain p where p:
    "caps m 2 = Some (p, endIndex m)" "li \<le> index m"
    "p = index m \<and> (p = 0 \<or> isLineTerminator (s ! (p - 1)))
       \<or> p = index m + 1 \<and> (isSpace (s ! index m) \<or> s ! index m = 40)"
    "p + 3 \<le> endIndex m" "endIndex m \<le> length s" "isLetter (s ! p)"
    "\<forall>k. p \<le> k \<and> k < endIndex m \<longrightarrow> \<not> isSpace (s ! k)"
    by blast
  from p(1) have g: "gstart m = p" by (simp add: gstart_def)
  show "caps m 2 = Some (gstart m, endIndex m)" using p(1) g by simp
  show "li \<le> index m" by fact
  show "index m \<le> gstart m" using p(3) g by auto
  show "gstart m + 3 \<le> endIndex m" using p(4) g by simp
  show "endIndex m \<le> length s" by fact
  show "gstart m = 0 \<or> isSpace (s ! (gstart m - 1)) \<or> s ! (gstart m - 1) = 40"
    using p(3) g by (auto simp: isSpace_def)
  have "\<not> isLetter 40" by (simp add: isLetter_def)
  with p(3,6) isLetter_not_space[OF p(6)]
  show "gstart m = index m \<and> (index m = 0 \<or> isLineTerminator (s ! (index m - 1)))
         \<or> gstart m = index m + 1 \<and> s ! index m \<noteq> s ! gstart m"
    unfolding g by auto
  from p(4,7) show "\<not> isSpace (s ! (endIndex m - 1))" by simp
qed

lemma group2_text:
  assumes "exec_from URI_RE s li = Some m"
  shows "group s m 2 = Some (substring s (gstart m) (endIndex m))"
    and "length (substring s (gstart m) (endIndex m)) = endIndex m - gstart m"
    and "indexOf s (substring s (gstart m) (endIndex m)) (index m) = int (gstart m)"
proof -
  note f = uri_match_facts[OF assms]
  show "group s m 2 = Some (substring s (gstart m) (endIndex m))"
    using f(1) by (simp add: group_def)
  show "length (substring s (gstart m) (endIndex m)) = endIndex m - gstart m"
    using f(4,5) by (simp add: substring_def)
  show "indexOf s (substring s (gstart m) (endIndex m)) (index m) = int (gstart m)"
    using f(4,5,7) by (intro indexOf_at) auto
qed

lemma resolve_uri_no_error:
  assumes "exec_from URI_RE s li = Some m"
  shows "\<exists>r. resolve_uri vd s m = Inr r"
  using group2_text(1)[OF assms]
  by (simp add: resolve_uri_def split: option.splits)

lemma loop_body_cases:
  assumes "exec_from URI_RE s li = Some m"
  shows "loop_body vd s m = Inr None
       \<or> (\<exists>c. loop_body vd s m = Inr (Some c) \<and> cfrom c = int (gstart m)
              \<and> int (endIndex m) - 1 \<le> cto c \<and> cto c \<le> int (endIndex m) + 1)"
proof -
  note g = group2_text[OF assms]
  note f = uri_match_facts[OF assms]
  from resolve_uri_no_error[OF assms] obtain r where r: "resolve_uri vd s m = Inr r" by blast
  show ?thesis
  proof (cases r)
    case None
    with r show ?thesis by (simp add: loop_body_def)
  next
    case (Some u)
    with r g f(4) show ?thesis
      by (auto simp: loop_body_def Let_def split: if_splits)
  qed
qed

section \<open>The loop as a total function\<close>

text \<open>
  The matches the loop consumes, one per iteration: every search starts where the last match
  ended. The recursion ends because a match ends after the position its search started from.
\<close>

function matches :: "jsstring \<Rightarrow> nat \<Rightarrow> rmatch list" where
  "matches s li =
     (case exec_from URI_RE s li of None \<Rightarrow> [] | Some m \<Rightarrow> m # matches s (endIndex m))"
  by pat_completeness auto
termination
proof (relation "measure (\<lambda>(s, li). length s + 1 - li)")
  fix s li m
  assume "exec_from URI_RE s li = Some m"
  from uri_match_facts(2,3,4,5)[OF this]
  show "((s, endIndex m), (s, li)) \<in> measure (\<lambda>(s, li). length s + 1 - li)"
    by simp
qed simp

declare matches.simps [simp del]

text \<open>What the body hands to the callback for one match, and for all matches from a position.\<close>

definition emit :: "(jsstring \<Rightarrow> bool) \<Rightarrow> jsstring \<Rightarrow> rmatch \<Rightarrow> candidate list" where
  "emit vd s m = (case loop_body vd s m of Inr (Some c) \<Rightarrow> [c] | _ \<Rightarrow> [])"

definition all_candidates :: "(jsstring \<Rightarrow> bool) \<Rightarrow> jsstring \<Rightarrow> nat \<Rightarrow> candidate list" where
  "all_candidates vd s li = concat (map (emit vd s) (matches s li))"

lemma all_candidates_None:
  "exec_from URI_RE s li = None \<Longrightarrow> all_candidates vd s li = []"
  by (simp add: all_candidates_def matches.simps[of s li])

lemma all_candidates_Some:
  "exec_from URI_RE s li = Some m \<Longrightarrow>
     all_candidates vd s li = emit vd s m @ all_candidates vd s (endIndex m)"
  by (simp add: all_candidates_def matches.simps[of s li])

text \<open>The loop returns, and its result is the callback folded over these candidates.\<close>

lemma uri_loop_eq:
  "uri_loop vd s cb li st = Some (Inr (fold cb (all_candidates vd s li) st))"
proof (induction s li arbitrary: st rule: matches.induct)
  case (1 s li)
  show ?case
  proof (cases "exec_from URI_RE s li")
    case None
    then show ?thesis
      by (subst uri_loop.simps) (simp add: all_candidates_None)
  next
    case (Some m)
    from loop_body_cases[OF Some, of vd]
    show ?thesis
    proof
      assume b: "loop_body vd s m = Inr None"
      then have "uri_loop vd s cb li st = uri_loop vd s cb (endIndex m) st"
        using Some by (subst uri_loop.simps) simp
      with "1.IH"[OF Some] b Some show ?thesis
        by (simp add: all_candidates_Some emit_def)
    next
      assume "\<exists>c. loop_body vd s m = Inr (Some c) \<and> cfrom c = int (gstart m)
              \<and> int (endIndex m) - 1 \<le> cto c \<and> cto c \<le> int (endIndex m) + 1"
      then obtain c where b: "loop_body vd s m = Inr (Some c)" by blast
      then have "uri_loop vd s cb li st = uri_loop vd s cb (endIndex m) (cb c st)"
        using Some by (subst uri_loop.simps) simp
      with "1.IH"[OF Some] b Some show ?thesis
        by (simp add: all_candidates_Some emit_def)
    qed
  qed
qed

lemma fold_snoc_map: "fold (\<lambda>x acc. acc @ [f x]) xs acc = acc @ map f xs"
  by (induction xs arbitrary: acc) simp_all

lemma candidates_eq: "candidates vd s = Some (Inr (all_candidates vd s 0))"
  using fold_snoc_map[of "\<lambda>c. c" _ "[]"]
  by (simp add: candidates_def uri_loop_eq)

lemma emitted_spans_eq:
  "emitted_spans vd s = Some (Inr (map (\<lambda>c. (cfrom c, cto c)) (all_candidates vd s 0)))"
  using fold_snoc_map[of "\<lambda>c. (cfrom c, cto c)" _ "[]"]
  by (simp add: emitted_spans_def iterateUris_def uri_loop_eq)

section \<open>The spans of \<^verbatim>\<open>iterateUris\<close>\<close>


text \<open>The facts that evaluate the model on a concrete string.\<close>

lemmas uri_eval =
  js_def URI_RE_def prefix_re_def link_re_def scheme_re_def domain_re_def lit_def alnum_def
  ms.simps cls_match.simps isSpace_def isWhiteSpace_def isLineTerminator_def canonicalize_def
  reset_def exec_from.simps group_def substring_def startsWith_def indexOf_def
  resolve_uri_def ends_with_punct_def ends_with_unopened_paren_def loop_body_def
  uri_loop.simps iterateUris_def emitted_spans_def candidates_def all_valid_def none_valid_def

lemma candidate_match:
  "c \<in> set (all_candidates vd s li) \<Longrightarrow>
     \<exists>li' m. li \<le> li' \<and> exec_from URI_RE s li' = Some m \<and> loop_body vd s m = Inr (Some c)"
proof (induction s li rule: matches.induct)
  case (1 s li)
  show ?case
  proof (cases "exec_from URI_RE s li")
    case None
    with "1.prems" show ?thesis by (simp add: all_candidates_None)
  next
    case (Some m)
    with "1.prems" consider "c \<in> set (emit vd s m)" | "c \<in> set (all_candidates vd s (endIndex m))"
      by (auto simp: all_candidates_Some)
    then show ?thesis
    proof cases
      case 1
      then have "loop_body vd s m = Inr (Some c)"
        by (auto simp: emit_def split: sum.splits option.splits)
      with Some show ?thesis by blast
    next
      case 2
      from "1.IH"[OF Some 2] obtain li' m' where
        *: "endIndex m \<le> li'" "exec_from URI_RE s li' = Some m'" "loop_body vd s m' = Inr (Some c)"
        by blast
      from uri_match_facts(2,3,4)[OF Some] *(1) have "li \<le> li'" by simp
      with * show ?thesis by blast
    qed
  qed
qed

lemma candidate_facts:
  assumes "c \<in> set (all_candidates vd s li)"
  shows "\<exists>m li'. li \<le> li' \<and> exec_from URI_RE s li' = Some m \<and> loop_body vd s m = Inr (Some c)
           \<and> cfrom c = int (gstart m)
           \<and> int (endIndex m) - 1 \<le> cto c \<and> cto c \<le> int (endIndex m) + 1"
proof -
  from candidate_match[OF assms] obtain li' m where
    *: "li \<le> li'" "exec_from URI_RE s li' = Some m" "loop_body vd s m = Inr (Some c)"
    by blast
  from loop_body_cases[OF *(2), of vd] *(3)
  have "cfrom c = int (gstart m) \<and> int (endIndex m) - 1 \<le> cto c \<and> cto c \<le> int (endIndex m) + 1"
    by auto
  with * show ?thesis by blast
qed

lemma candidate_range:
  assumes "c \<in> set (all_candidates vd s li)"
  shows "int li \<le> cfrom c" and "cfrom c + 2 \<le> cto c" and "cto c \<le> int (length s) + 1"
    and "cfrom c + 3 \<le> int (length s)"
proof -
  from candidate_facts[OF assms] obtain m li' where
    *: "li \<le> li'" "exec_from URI_RE s li' = Some m" "cfrom c = int (gstart m)"
       "int (endIndex m) - 1 \<le> cto c" "cto c \<le> int (endIndex m) + 1"
    by blast
  note f = uri_match_facts[OF *(2)]
  show "int li \<le> cfrom c" using * f(2,3) by simp
  show "cfrom c + 2 \<le> cto c" using * f(4) by simp
  show "cto c \<le> int (length s) + 1" using * f(5) by simp
  show "cfrom c + 3 \<le> int (length s)" using * f(4,5) by simp
qed

lemma candidate_preceded:
  assumes "c \<in> set (all_candidates vd s li)"
  shows "cfrom c = 0 \<or> isSpace (s ! nat (cfrom c - 1)) \<or> s ! nat (cfrom c - 1) = of_char CHR ''(''"
proof -
  from candidate_facts[OF assms] obtain m li' where
    *: "exec_from URI_RE s li' = Some m" "cfrom c = int (gstart m)"
    by blast
  have "nat (int (gstart m) - 1) = gstart m - 1" by simp
  with uri_match_facts(6)[OF *(1)] *(2) show ?thesis by auto
qed

lemma next_match_start:
  assumes "exec_from URI_RE s li = Some m" "0 < li" "\<not> isSpace (s ! (li - 1))"
  shows "li < gstart m"
proof -
  note f = uri_match_facts[OF assms(1)]
  from f(7) show ?thesis
  proof
    assume a: "gstart m = index m \<and> (index m = 0 \<or> isLineTerminator (s ! (index m - 1)))"
    with f(2) assms(2) have "isLineTerminator (s ! (index m - 1))" by simp
    with assms(3) have "index m \<noteq> li" by (auto simp: isSpace_def)
    with f(2) a show ?thesis by simp
  next
    assume "gstart m = index m + 1 \<and> s ! index m \<noteq> s ! gstart m"
    with f(2) show ?thesis by simp
  qed
qed

lemma candidate_after:
  assumes "c \<in> set (all_candidates vd s li)" "0 < li" "\<not> isSpace (s ! (li - 1))"
  shows "int li < cfrom c"
proof -
  from candidate_facts[OF assms(1)] obtain m li' where
    *: "li \<le> li'" "exec_from URI_RE s li' = Some m" "cfrom c = int (gstart m)"
    by blast
  note f = uri_match_facts[OF *(2)]
  show ?thesis
  proof (cases "li' = li")
    case True
    with next_match_start[OF _ assms(2,3)] * show ?thesis by simp
  next
    case False
    with * f(2,3) show ?thesis by simp
  qed
qed

lemma all_candidates_sorted:
  "sorted_wrt (\<lambda>c c'. cfrom c < cfrom c' \<and> cto c \<le> cfrom c') (all_candidates vd s li)"
proof (induction s li rule: matches.induct)
  case (1 s li)
  show ?case
  proof (cases "exec_from URI_RE s li")
    case None
    then show ?thesis by (simp add: all_candidates_None)
  next
    case (Some m)
    note f = uri_match_facts[OF Some]
    have later: "int (endIndex m) < cfrom c'" if "c' \<in> set (all_candidates vd s (endIndex m))" for c'
      using candidate_after[OF that] f(4,8) by simp
    have first: "cfrom c < cfrom c' \<and> cto c \<le> cfrom c'"
      if "c \<in> set (emit vd s m)" "c' \<in> set (all_candidates vd s (endIndex m))" for c c'
    proof -
      from that(1) have "loop_body vd s m = Inr (Some c)"
        by (auto simp: emit_def split: sum.splits option.splits)
      with loop_body_cases[OF Some, of vd]
      have "cfrom c = int (gstart m)" "cto c \<le> int (endIndex m) + 1" by auto
      with later[OF that(2)] f(4) show ?thesis by simp
    qed
    have single: "sorted_wrt (\<lambda>c c'. cfrom c < cfrom c' \<and> cto c \<le> cfrom c') (emit vd s m)"
      by (simp add: emit_def split: sum.splits option.splits)
    from "1.IH"[OF Some] first single show ?thesis
      by (simp add: all_candidates_Some[OF Some] sorted_wrt_append)
  qed
qed

lemma matches_count: "matches s li = [] \<or> li + 3 * length (matches s li) \<le> length s"
proof (induction s li rule: matches.induct)
  case (1 s li)
  show ?case
  proof (cases "exec_from URI_RE s li")
    case None
    then show ?thesis by (simp add: matches.simps[of s li])
  next
    case (Some m)
    note f = uri_match_facts[OF Some]
    from Some have eq: "matches s li = m # matches s (endIndex m)"
      by (simp add: matches.simps[of s li])
    from "1.IH"[OF Some] f(2,3,4,5) show ?thesis unfolding eq by auto
  qed
qed

text \<open>
  Claim C7. Every span that \<^verbatim>\<open>iterateUris\<close> emits has \<open>from < to\<close>, also after both
  trimming steps: every match of the expression has a link text (capture 2) of at least three
  code units, and the two steps take away at most two.
\<close>

theorem iterateUris_spans_nonempty:
  "(\<exists>cs. emitted_spans isValidDomain str = Some (Inr cs) \<and> (\<forall>(from, to) \<in> set cs. from < to))
   \<and> (\<forall>lastIndex m. exec_from URI_RE str lastIndex = Some m \<longrightarrow>
         (\<exists>txt. group str m 2 = Some txt \<and> 3 \<le> length txt))"
proof (intro conjI allI impI)
  show "\<exists>cs. emitted_spans isValidDomain str = Some (Inr cs) \<and> (\<forall>(from, to) \<in> set cs. from < to)"
    using candidate_range(2)[of _ isValidDomain str 0]
    by (auto simp: emitted_spans_eq) force
next
  fix lastIndex m
  assume "exec_from URI_RE str lastIndex = Some m"
  from group2_text(1,2)[OF this] uri_match_facts(4)[OF this]
  show "\<exists>txt. group str m 2 = Some txt \<and> 3 \<le> length txt" by simp
qed

theorem iterateUris_spans_nonempty_witness:
  "emitted_spans all_valid (js ''a.b).'') = Some (Inr [(0, 4)]) \<and> (0::int) < 4
   \<and> (\<exists>m. exec_from URI_RE (js ''a.b).'') 0 = Some m
          \<and> group (js ''a.b).'') m 2 = Some (js ''a.b).'') \<and> 3 \<le> length (js ''a.b).''))"
proof -
  have ev: "emitted_spans all_valid (js ''a.b).'') = Some (Inr [(0, 4)])"
    "\<exists>m. exec_from URI_RE (js ''a.b).'') 0 = Some m
          \<and> group (js ''a.b).'') m 2 = Some (js ''a.b).'') \<and> 3 \<le> length (js ''a.b).'')"
    by (simp_all add: uri_eval)
  from iterateUris_spans_nonempty[of all_valid "js ''a.b).''"] ev(1)
  have "(0::int) < 4" by auto
  with ev show ?thesis by blast
qed

text \<open>
  Claim C1, as amended. Every span that \<^verbatim>\<open>iterateUris\<close> emits satisfies
  \<open>0 \<le> from < to \<le> length str + 1\<close>. The source computes \<^verbatim>\<open>to\<close> as
  \<^verbatim>\<open>from + match[2].length + 1\<close>, so \<^verbatim>\<open>to\<close> is one more than the offset after the link text
  (less the trimmed code units) and can exceed the length of the input by one.
\<close>

theorem iterateUris_span_bounds:
  "\<exists>cs. emitted_spans isValidDomain str = Some (Inr cs)
        \<and> (\<forall>(from, to) \<in> set cs. 0 \<le> from \<and> from < to \<and> to \<le> int (length str) + 1)"
proof -
  have "0 \<le> cfrom c \<and> cfrom c < cto c \<and> cto c \<le> int (length str) + 1"
    if "c \<in> set (all_candidates isValidDomain str 0)" for c
    using candidate_range(1,2,3)[OF that] by simp
  then show ?thesis by (auto simp: emitted_spans_eq)
qed

theorem iterateUris_span_bounds_witness:
  "emitted_spans all_valid (js ''see a.bc'') = Some (Inr [(4, 9)])
   \<and> (0::int) \<le> 4 \<and> (4::int) < 9 \<and> 9 \<le> int (length (js ''see a.bc'')) + 1"
  using iterateUris_span_bounds[of all_valid "js ''see a.bc''"]
  by (simp add: uri_eval)

text \<open>
  Claim C1 as stated fails: on the input \<^verbatim>\<open>http://a\<close>, of length 8, the span emitted is
  \<open>(0, 9)\<close>.
\<close>

theorem iterateUris_to_exceeds_length:
  "emitted_spans all_valid (js ''http://a'') = Some (Inr [(0, 9)])
   \<and> int (length (js ''http://a'')) < 9"
  by (simp add: uri_eval)

text \<open>
  Claim C3. The spans that \<^verbatim>\<open>iterateUris\<close> emits are in strictly increasing order of
  \<^verbatim>\<open>from\<close>, and each span ends no later than every later span starts: no two ranges
  \<open>[from, to)\<close> overlap.
\<close>

theorem iterateUris_spans_ordered:
  "\<exists>cs. emitted_spans isValidDomain str = Some (Inr cs)
        \<and> sorted_wrt (\<lambda>(from, to) (from', to'). from < from' \<and> to \<le> from') cs"
  using all_candidates_sorted[of isValidDomain str 0]
  by (simp add: emitted_spans_eq sorted_wrt_map)

theorem iterateUris_spans_ordered_witness:
  "emitted_spans all_valid (js ''a.b c.d, (e.f)'') = Some (Inr [(0, 4), (4, 8), (10, 14)])
   \<and> (0::int) < 4 \<and> (4::int) \<le> 4 \<and> (4::int) < 10 \<and> (8::int) \<le> 10"
  using iterateUris_spans_ordered[of all_valid "js ''a.b c.d, (e.f)''"]
  by (simp add: uri_eval)

text \<open>
  Claim C8. The link text of every emitted span starts at the start of the string, after a
  white space character or after an open parenthesis. A link-shaped text glued to other
  characters, as the domain of \<^verbatim>\<open>bob@example.com\<close>, is not emitted.
\<close>

theorem iterateUris_span_preceded:
  "(\<exists>cs. emitted_spans isValidDomain str = Some (Inr cs)
        \<and> (\<forall>(from, to) \<in> set cs.
              0 \<le> from \<and> from < int (length str)
              \<and> (from = 0 \<or> isSpace (str ! nat (from - 1))
                  \<or> str ! nat (from - 1) = of_char CHR ''('')))
   \<and> emitted_spans isValidDomain (js ''bob@example.com'') = Some (Inr [])"
proof
  have "0 \<le> cfrom c \<and> cfrom c < int (length str)
        \<and> (cfrom c = 0 \<or> isSpace (str ! nat (cfrom c - 1))
            \<or> str ! nat (cfrom c - 1) = of_char CHR ''('')"
    if "c \<in> set (all_candidates isValidDomain str 0)" for c
    using candidate_range(1,4)[OF that] candidate_preceded[OF that] by simp
  then show "\<exists>cs. emitted_spans isValidDomain str = Some (Inr cs)
        \<and> (\<forall>(from, to) \<in> set cs.
              0 \<le> from \<and> from < int (length str)
              \<and> (from = 0 \<or> isSpace (str ! nat (from - 1))
                  \<or> str ! nat (from - 1) = of_char CHR ''(''))"
    by (auto simp: emitted_spans_eq)
  show "emitted_spans isValidDomain (js ''bob@example.com'') = Some (Inr [])"
    by (simp add: uri_eval)
qed

theorem iterateUris_span_preceded_witness:
  "emitted_spans all_valid (js ''x (a.b c.d'') = Some (Inr [(3, 7), (7, 11)])
   \<and> js ''x (a.b c.d'' ! nat (3 - 1) = of_char CHR ''(''
   \<and> isSpace (js ''x (a.b c.d'' ! nat (7 - 1))
   \<and> emitted_spans all_valid (js ''bob@example.com'') = Some (Inr [])"
  using iterateUris_span_preceded[of all_valid "js ''x (a.b c.d''"]
  by (simp add: uri_eval)

text \<open>
  Claim C10. \<^verbatim>\<open>iterateUris\<close> returns on every string, without an error. Every match that
  \<^verbatim>\<open>exec\<close> finds from \<^verbatim>\<open>lastIndex\<close> ends strictly after \<^verbatim>\<open>lastIndex\<close> and within
  the string, with a link text of at least three code units, whatever the body then does with
  it; \<open>matches str 0\<close> lists the matches the loop consumes, one per iteration, and they are
  at most as many as the string is long.
\<close>

theorem iterateUris_terminates:
  "(\<exists>r. iterateUris isValidDomain str cb st = Some (Inr r))
   \<and> (\<forall>lastIndex m. exec_from URI_RE str lastIndex = Some m \<longrightarrow>
         lastIndex < endIndex m \<and> endIndex m \<le> length str
         \<and> (\<exists>txt. group str m 2 = Some txt \<and> 3 \<le> length txt))
   \<and> length (matches str 0) \<le> length str"
proof (intro conjI allI impI)
  show "\<exists>r. iterateUris isValidDomain str cb st = Some (Inr r)"
    by (simp add: iterateUris_def uri_loop_eq)
next
  fix lastIndex m
  assume a: "exec_from URI_RE str lastIndex = Some m"
  from uri_match_facts(2,3,4)[OF a] show "lastIndex < endIndex m" by simp
  from uri_match_facts(5)[OF a] show "endIndex m \<le> length str" .
  from group2_text(1,2)[OF a] uri_match_facts(4)[OF a]
  show "\<exists>txt. group str m 2 = Some txt \<and> 3 \<le> length txt" by simp
next
  from matches_count[of str 0] show "length (matches str 0) \<le> length str" by auto
qed

theorem iterateUris_terminates_witness:
  "iterateUris none_valid (js ''a.b http://c'') (\<lambda>from to n. n + (1::nat)) 0 = Some (Inr 1)
   \<and> (\<exists>m. exec_from URI_RE (js ''a.b http://c'') 0 = Some m \<and> 0 < endIndex m
          \<and> endIndex m \<le> length (js ''a.b http://c'')
          \<and> group (js ''a.b http://c'') m 2 = Some (js ''a.b''))
   \<and> length (matches (js ''a.b http://c'') 0) \<le> length (js ''a.b http://c'')"
proof -
  have ev: "iterateUris none_valid (js ''a.b http://c'') (\<lambda>from to n. n + (1::nat)) 0
              = Some (Inr 1)"
    "\<exists>m. exec_from URI_RE (js ''a.b http://c'') 0 = Some m \<and> 0 < endIndex m
          \<and> endIndex m \<le> length (js ''a.b http://c'')
          \<and> group (js ''a.b http://c'') m 2 = Some (js ''a.b'')"
    by (simp_all add: uri_eval)
  from iterateUris_terminates[of none_valid "js ''a.b http://c''" "\<lambda>from to n. n + (1::nat)" 0]
  have "length (matches (js ''a.b http://c'') 0) \<le> length (js ''a.b http://c'')"
    by blast
  with ev show ?thesis by blast
qed


subsection \<open>Boundary trimming\<close>

text \<open>
  Claim C4. For every match that the loop does not skip, the body applies exactly the two
  steps, in this order, to the resolved \<^verbatim>\<open>uri\<close> and to \<^verbatim>\<open>to\<close>, which starts as
  \<^verbatim>\<open>from + match[2].length + 1\<close>. On \<^verbatim>\<open>(see http://foo.test)\<close> the url is
  \<^verbatim>\<open>http://foo.test\<close>, both parentheses left out; on \<^verbatim>\<open>(http://foo.test/a(b))\<close> no
  \<^verbatim>\<open>)\<close> is stripped, since the link text holds a \<^verbatim>\<open>(\<close>.
\<close>

theorem trimming_two_steps:
  "(\<forall>lastIndex m uri0.
      exec_from URI_RE str lastIndex = Some m \<and> resolve_uri isValidDomain str m = Inr (Some uri0)
      \<longrightarrow> (\<exists>c txt. loop_body isValidDomain str m = Inr (Some c) \<and> group str m 2 = Some txt
              \<and> (uri c, cto c)
                  = spec_strip_paren (spec_strip_punct (uri0, cfrom c + int (length txt) + 1))))
   \<and> candidates isValidDomain (js ''(see http://foo.test)'')
       = Some (Inr [\<lparr>cfrom = 5, cto = 21, uri = js ''http://foo.test''\<rparr>])
   \<and> candidates isValidDomain (js ''(http://foo.test/a(b))'')
       = Some (Inr [\<lparr>cfrom = 1, cto = 23, uri = js ''http://foo.test/a(b))''\<rparr>])"
proof (intro conjI allI impI)
  fix lastIndex m uri0
  assume a: "exec_from URI_RE str lastIndex = Some m \<and> resolve_uri isValidDomain str m = Inr (Some uri0)"
  then have g: "group str m 2 = Some (substring str (gstart m) (endIndex m))"
    using group2_text(1) by blast
  show "\<exists>c txt. loop_body isValidDomain str m = Inr (Some c) \<and> group str m 2 = Some txt
              \<and> (uri c, cto c)
                  = spec_strip_paren (spec_strip_punct (uri0, cfrom c + int (length txt) + 1))"
    using a g
    by (auto simp: loop_body_def Let_def spec_strip_punct_def spec_strip_paren_def
        ends_with_punct_def ends_with_unopened_paren_def js_def)
next
  show "candidates isValidDomain (js ''(see http://foo.test)'')
       = Some (Inr [\<lparr>cfrom = 5, cto = 21, uri = js ''http://foo.test''\<rparr>])"
    by (simp add: uri_eval)
next
  show "candidates isValidDomain (js ''(http://foo.test/a(b))'')
       = Some (Inr [\<lparr>cfrom = 1, cto = 23, uri = js ''http://foo.test/a(b))''\<rparr>])"
    by (simp add: uri_eval)
qed

theorem trimming_two_steps_witness:
  "(\<exists>m. exec_from URI_RE (js ''x a.b).'') 0 = Some m
        \<and> resolve_uri all_valid (js ''x a.b).'') m = Inr (Some (js ''https://a.b).''))
        \<and> loop_body all_valid (js ''x a.b).'') m
            = Inr (Some \<lparr>cfrom = 2, cto = 6, uri = js ''https://a.b''\<rparr>)
        \<and> group (js ''x a.b).'') m 2 = Some (js ''a.b).''))
   \<and> spec_strip_paren (spec_strip_punct (js ''https://a.b).'', 2 + int (length (js ''a.b).'')) + 1))
       = (js ''https://a.b'', 6)
   \<and> candidates all_valid (js ''(see http://foo.test)'')
       = Some (Inr [\<lparr>cfrom = 5, cto = 21, uri = js ''http://foo.test''\<rparr>])"
proof -
  let ?s = "js ''x a.b).''"
  have "\<exists>m. exec_from URI_RE ?s 0 = Some m
        \<and> resolve_uri all_valid ?s m = Inr (Some (js ''https://a.b).''))
        \<and> loop_body all_valid ?s m = Inr (Some \<lparr>cfrom = 2, cto = 6, uri = js ''https://a.b''\<rparr>)
        \<and> group ?s m 2 = Some (js ''a.b).'')"
    by (simp add: uri_eval)
  then obtain m where m: "exec_from URI_RE ?s 0 = Some m"
    "resolve_uri all_valid ?s m = Inr (Some (js ''https://a.b).''))"
    "loop_body all_valid ?s m = Inr (Some \<lparr>cfrom = 2, cto = 6, uri = js ''https://a.b''\<rparr>)"
    "group ?s m 2 = Some (js ''a.b).'')"
    by blast
  note t = trimming_two_steps[of ?s all_valid]
  from t m(1,2) obtain c lk where c: "loop_body all_valid ?s m = Inr (Some c)"
    "group ?s m 2 = Some lk"
    "(uri c, cto c) = spec_strip_paren (spec_strip_punct (js ''https://a.b).'', cfrom c + int (length lk) + 1))"
    by blast
  from c(1) m(3) have ceq: "c = \<lparr>cfrom = 2, cto = 6, uri = js ''https://a.b''\<rparr>" by simp
  from c(2) m(4) have lkeq: "lk = js ''a.b).''" by simp
  from c(3)[symmetric] have sp:
    "spec_strip_paren (spec_strip_punct (js ''https://a.b).'', 2 + int (length (js ''a.b).'')) + 1))
       = (js ''https://a.b'', 6)"
    unfolding ceq lkeq by simp
  from t have "candidates all_valid (js ''(see http://foo.test)'')
       = Some (Inr [\<lparr>cfrom = 5, cto = 21, uri = js ''http://foo.test''\<rparr>])"
    by blast
  with m sp show ?thesis by blast
qed


lemma minlen_domain_re: "minlen domain_re = 3"
  by (simp add: domain_re_def lit_def alnum_def)

subsection \<open>Resolving the uri\<close>

text \<open>
  The capture \<^verbatim>\<open>domain\<close> of a match: undefined, or a text of at least three code units
  that starts where the link text starts.
\<close>

lemma uri_match_domain:
  assumes "exec_from URI_RE s li = Some m"
  shows "caps m 5 = None \<or> (\<exists>e. caps m 5 = Some (gstart m, e) \<and> gstart m + 3 \<le> e \<and> e \<le> endIndex m)"
proof -
  from exec_from_sound[OF assms]
  have mem: "(endIndex m, caps m) \<in> set (ms URI_RE s (index m, Map.empty))"
    by simp
  from mem obtain x y where
    x: "x \<in> set (ms prefix_re s (index m, Map.empty))" and
    y: "y \<in> set (ms link_re s (fst x, (snd x)(1 \<mapsto> (index m, fst x))))" and
    e: "endIndex m = fst y" and c: "caps m = (snd y)(2 \<mapsto> (fst x, fst y))"
    unfolding URI_RE_def in_ms_Seq by (auto simp: in_ms_Group)
  from c have g: "gstart m = fst x" by (simp add: gstart_def)
  from ms_frame[OF x, of 5] have x5: "snd x 5 = None"
    by (simp add: prefix_re_def lit_def)
  let ?st = "(fst x, (snd x)(1 \<mapsto> (index m, fst x)))"
  from y consider (A) "y \<in> set (ms (Group 3 scheme_re) s ?st)"
    | (B) "y \<in> set (ms (Group 4 (Seq (Group 5 domain_re) (Star (Atom [NWS])))) s ?st)"
    unfolding link_re_def in_ms_Alt by blast
  then show ?thesis
  proof cases
    case A
    from ms_frame[OF A, of 5] x5 have "snd y 5 = None"
      by (simp add: scheme_re_def lit_def)
    with c show ?thesis by simp
  next
    case B
    then obtain z where z: "z \<in> set (ms (Seq (Group 5 domain_re) (Star (Atom [NWS]))) s ?st)"
      and yz: "y = (fst z, (snd z)(4 \<mapsto> (fst x, fst z)))"
      by (auto simp: in_ms_Group)
    from z obtain d where d: "d \<in> set (ms (Group 5 domain_re) s ?st)"
      and zd: "z \<in> set (ms (Star (Atom [NWS])) s d)"
      unfolding in_ms_Seq by blast
    from d obtain w where w: "w \<in> set (ms domain_re s ?st)"
      and dw: "d = (fst w, (snd w)(5 \<mapsto> (fst x, fst w)))"
      by (auto simp: in_ms_Group)
    from ms_minlen[OF w] have len: "fst x + 3 \<le> fst w" by (simp add: minlen_domain_re)
    from ms_frame[OF zd, of 5] dw have z5: "snd z 5 = Some (fst x, fst w)" by simp
    from ms_mono[OF zd] dw have "fst w \<le> fst z" by simp
    with yz e have "fst w \<le> endIndex m" by simp
    with z5 yz c g len show ?thesis by simp
  qed
qed

lemma group5_text:
  assumes "exec_from URI_RE s li = Some m" "group s m 5 = Some d"
  shows "d \<noteq> []"
proof -
  note f = uri_match_facts[OF assms(1)]
  from uri_match_domain[OF assms(1)] assms(2) obtain e where
    e: "caps m 5 = Some (gstart m, e)" "gstart m + 3 \<le> e" "e \<le> endIndex m"
    by (auto simp: group_def)
  with assms(2) f(5) show ?thesis by (auto simp: group_def substring_def)
qed

text \<open>
  How lines 142 to 149 resolve the uri of a match: a link text that starts with the lower-case
  letters \<^verbatim>\<open>http\<close> is the resolved uri, verbatim; a link text that does not is prefixed with
  \<^verbatim>\<open>https://\<close> when its domain is valid, and the match is skipped otherwise.
\<close>

theorem resolve_uri_cases:
  "exec_from URI_RE str lastIndex = Some m \<longrightarrow>
     (\<exists>txt. group str m 2 = Some txt
        \<and> (startsWith txt (js ''http'') \<longrightarrow> resolve_uri isValidDomain str m = Inr (Some txt))
        \<and> (\<not> startsWith txt (js ''http'') \<longrightarrow>
             (\<forall>d. group str m 5 = Some d \<and> isValidDomain d \<longrightarrow>
                  resolve_uri isValidDomain str m = Inr (Some (js ''https://'' @ txt)))
             \<and> (\<forall>d. group str m 5 = Some d \<and> \<not> isValidDomain d \<longrightarrow>
                  resolve_uri isValidDomain str m = Inr None)
             \<and> (group str m 5 = None \<longrightarrow> resolve_uri isValidDomain str m = Inr None)))"
proof
  assume a: "exec_from URI_RE str lastIndex = Some m"
  from group2_text(1)[OF a] obtain lk where t: "group str m 2 = Some lk" by blast
  have "d \<noteq> []" if "group str m 5 = Some d" for d
    using group5_text[OF a that] .
  with t show "\<exists>txt. group str m 2 = Some txt
        \<and> (startsWith txt (js ''http'') \<longrightarrow> resolve_uri isValidDomain str m = Inr (Some txt))
        \<and> (\<not> startsWith txt (js ''http'') \<longrightarrow>
             (\<forall>d. group str m 5 = Some d \<and> isValidDomain d \<longrightarrow>
                  resolve_uri isValidDomain str m = Inr (Some (js ''https://'' @ txt)))
             \<and> (\<forall>d. group str m 5 = Some d \<and> \<not> isValidDomain d \<longrightarrow>
                  resolve_uri isValidDomain str m = Inr None)
             \<and> (group str m 5 = None \<longrightarrow> resolve_uri isValidDomain str m = Inr None))"
    by (auto simp: resolve_uri_def)
qed

theorem resolve_uri_cases_witness:
  "(\<exists>m. exec_from URI_RE (js ''go to http://foo.test/path now'') 0 = Some m
        \<and> group (js ''go to http://foo.test/path now'') m 2 = Some (js ''http://foo.test/path'')
        \<and> startsWith (js ''http://foo.test/path'') (js ''http'')
        \<and> resolve_uri none_valid (js ''go to http://foo.test/path now'') m
            = Inr (Some (js ''http://foo.test/path'')))
   \<and> (\<exists>m. exec_from URI_RE (js ''visit example.com now'') 0 = Some m
        \<and> group (js ''visit example.com now'') m 2 = Some (js ''example.com'')
        \<and> group (js ''visit example.com now'') m 5 = Some (js ''example.com'')
        \<and> resolve_uri all_valid (js ''visit example.com now'') m
            = Inr (Some (js ''https://example.com'')))"
proof -
  have ev1: "\<exists>m. exec_from URI_RE (js ''go to http://foo.test/path now'') 0 = Some m
        \<and> group (js ''go to http://foo.test/path now'') m 2 = Some (js ''http://foo.test/path'')
        \<and> startsWith (js ''http://foo.test/path'') (js ''http'')"
    by (simp add: uri_eval)
  then obtain m where m: "exec_from URI_RE (js ''go to http://foo.test/path now'') 0 = Some m"
    "group (js ''go to http://foo.test/path now'') m 2 = Some (js ''http://foo.test/path'')"
    "startsWith (js ''http://foo.test/path'') (js ''http'')"
    by blast
  from resolve_uri_cases[of "js ''go to http://foo.test/path now''" 0 m none_valid] m
  have r1: "resolve_uri none_valid (js ''go to http://foo.test/path now'') m
            = Inr (Some (js ''http://foo.test/path''))"
    by auto
  have ev2: "\<exists>m. exec_from URI_RE (js ''visit example.com now'') 0 = Some m
        \<and> group (js ''visit example.com now'') m 2 = Some (js ''example.com'')
        \<and> group (js ''visit example.com now'') m 5 = Some (js ''example.com'')
        \<and> \<not> startsWith (js ''example.com'') (js ''http'')"
    by (simp add: uri_eval)
  then obtain k where k: "exec_from URI_RE (js ''visit example.com now'') 0 = Some k"
    "group (js ''visit example.com now'') k 2 = Some (js ''example.com'')"
    "group (js ''visit example.com now'') k 5 = Some (js ''example.com'')"
    "\<not> startsWith (js ''example.com'') (js ''http'')"
    by blast
  from resolve_uri_cases[of "js ''visit example.com now''" 0 k all_valid] k
  have r2: "resolve_uri all_valid (js ''visit example.com now'') k
            = Inr (Some (js ''https://'' @ js ''example.com''))"
    by (auto simp: all_valid_def)
  then have "resolve_uri all_valid (js ''visit example.com now'') k
            = Inr (Some (js ''https://example.com''))"
    by (simp add: js_def)
  with m r1 k show ?thesis by blast
qed


text \<open>
  The skip of line 146: a match whose link text does not start with \<^verbatim>\<open>http\<close> and whose
  domain fails the predicate emits nothing and raises no error, and the loop goes on from the
  end of the match, which lies after the position the search started from, and returns.
\<close>

theorem invalid_domain_skipped:
  "exec_from URI_RE str lastIndex = Some m \<and> group str m 2 = Some txt
     \<and> \<not> startsWith txt (js ''http'') \<and> group str m 5 = Some d \<and> \<not> isValidDomain d
   \<longrightarrow> loop_body isValidDomain str m = Inr None
       \<and> lastIndex < endIndex m
       \<and> uri_loop isValidDomain str cb lastIndex st = uri_loop isValidDomain str cb (endIndex m) st
       \<and> (\<exists>r. uri_loop isValidDomain str cb (endIndex m) st = Some (Inr r))"
proof
  assume a: "exec_from URI_RE str lastIndex = Some m \<and> group str m 2 = Some txt
     \<and> \<not> startsWith txt (js ''http'') \<and> group str m 5 = Some d \<and> \<not> isValidDomain d"
  then have b: "loop_body isValidDomain str m = Inr None"
    by (simp add: loop_body_def resolve_uri_def)
  from a have e: "exec_from URI_RE str lastIndex = Some m" by simp
  from e b have "uri_loop isValidDomain str cb lastIndex st
                   = uri_loop isValidDomain str cb (endIndex m) st"
    by (subst uri_loop.simps) simp
  with b uri_match_facts(2,3,4)[OF e]
  show "loop_body isValidDomain str m = Inr None
       \<and> lastIndex < endIndex m
       \<and> uri_loop isValidDomain str cb lastIndex st = uri_loop isValidDomain str cb (endIndex m) st
       \<and> (\<exists>r. uri_loop isValidDomain str cb (endIndex m) st = Some (Inr r))"
    by (simp add: uri_loop_eq)
qed
theorem invalid_domain_skipped_witness:
  "(\<exists>m. exec_from URI_RE (js ''see bad.x then good.y'') 0 = Some m
        \<and> group (js ''see bad.x then good.y'') m 2 = Some (js ''bad.x'')
        \<and> loop_body only_good (js ''see bad.x then good.y'') m = Inr None
        \<and> 0 < endIndex m
        \<and> candidates only_good (js ''see bad.x then good.y'')
            = uri_loop only_good (js ''see bad.x then good.y'') (\<lambda>c acc. acc @ [c]) (endIndex m) [])
   \<and> candidates only_good (js ''see bad.x then good.y'')
       = Some (Inr [\<lparr>cfrom = 15, cto = 22, uri = js ''https://good.y''\<rparr>])"
proof -
  let ?s = "js ''see bad.x then good.y''"
  have ev: "\<exists>m. exec_from URI_RE ?s 0 = Some m \<and> group ?s m 2 = Some (js ''bad.x'')
        \<and> \<not> startsWith (js ''bad.x'') (js ''http'') \<and> group ?s m 5 = Some (js ''bad.x'')
        \<and> \<not> only_good (js ''bad.x'')"
    by (simp add: uri_eval only_good_def)
  then obtain m where m: "exec_from URI_RE ?s 0 = Some m \<and> group ?s m 2 = Some (js ''bad.x'')
        \<and> \<not> startsWith (js ''bad.x'') (js ''http'') \<and> group ?s m 5 = Some (js ''bad.x'')
        \<and> \<not> only_good (js ''bad.x'')"
    by blast
  from invalid_domain_skipped[of ?s 0 m "js ''bad.x''" "js ''bad.x''" only_good "\<lambda>c acc. acc @ [c]" "[]"] m
  have sk: "loop_body only_good ?s m = Inr None" "0 < endIndex m"
    "candidates only_good ?s = uri_loop only_good ?s (\<lambda>c acc. acc @ [c]) (endIndex m) []"
    by (simp_all add: candidates_def)
  have c: "candidates only_good ?s = Some (Inr [\<lparr>cfrom = 15, cto = 22, uri = js ''https://good.y''\<rparr>])"
    by (simp add: uri_eval only_good_def)
  from m sk c show ?thesis by blast
qed

text \<open>
  Claim C5 fails on a bare domain that starts with \<^verbatim>\<open>http\<close>. \<^verbatim>\<open>httpbin.org\<close> matches
  through the bare-domain form (capture 3 is undefined, the capture \<^verbatim>\<open>domain\<close> is the whole
  text), but \<^verbatim>\<open>uri.startsWith('http')\<close> holds, so the uri is left without \<^verbatim>\<open>https://\<close>.
\<close>

theorem bare_domain_with_http_not_prefixed:
  "(\<exists>m. exec_from URI_RE (js ''httpbin.org'') 0 = Some m
        \<and> group (js ''httpbin.org'') m 3 = None
        \<and> group (js ''httpbin.org'') m 5 = Some (js ''httpbin.org'')
        \<and> resolve_uri all_valid (js ''httpbin.org'') m = Inr (Some (js ''httpbin.org'')))
   \<and> candidates all_valid (js ''httpbin.org'')
       = Some (Inr [\<lparr>cfrom = 0, cto = 12, uri = js ''httpbin.org''\<rparr>])"
  by (simp add: uri_eval)

text \<open>
  Claim C6 fails on the same inputs: the domain \<^verbatim>\<open>httpbin.org\<close> of a bare-domain match is
  never shown to the predicate, and its span is emitted although the predicate rejects it.
\<close>

theorem bare_domain_with_http_not_validated:
  "(\<exists>m. exec_from URI_RE (js ''see httpbin.org now'') 0 = Some m
        \<and> group (js ''see httpbin.org now'') m 3 = None
        \<and> group (js ''see httpbin.org now'') m 5 = Some (js ''httpbin.org'')
        \<and> none_valid (js ''httpbin.org'') = False)
   \<and> emitted_spans none_valid (js ''see httpbin.org now'') = Some (Inr [(4, 16)])"
  by (simp add: uri_eval)


section \<open>The decorations and the plugin state\<close>


text \<open>The spans of a string, as a total function.\<close>

definition span_list :: "(jsstring \<Rightarrow> bool) \<Rightarrow> jsstring \<Rightarrow> (int \<times> int) list" where
  "span_list vd s = map (\<lambda>c. (cfrom c, cto c)) (all_candidates vd s 0)"

lemma iterateUris_push:
  "iterateUris vd s (\<lambda>from to acc. acc @ [h from to]) acc
     = Some (Inr (acc @ map (\<lambda>(from, to). h from to) (span_list vd s)))"
  using fold_snoc_map[of "\<lambda>c. h (cfrom c) (cto c)" "all_candidates vd s 0" acc]
  by (simp add: iterateUris_def uri_loop_eq span_list_def comp_def)

lemma forEach_append:
  assumes "\<And>x st. f x st = Some (Inr (st @ g x))"
  shows "forEach f xs st = Some (Inr (st @ concat (map g xs)))"
  by (induction xs arbitrary: st) (simp_all add: assms)

text \<open>The facts that evaluate the plugin on a concrete document.\<close>

lemmas editor_eval =
  getDecorations_def linkDecorator_init_def linkDecorator_apply_def flat_editor_def flat_text_def
  Decoration_inline_def DecorationSet_create_def DecorationSet_map_def map_decoration_def
  List.map_filter_simps

text \<open>
  Claim C9. On initialization the decoration set holds, for the paragraph nodes of the
  document in the order \<^verbatim>\<open>findChildren\<close> lists them and for every span the scanner emits on
  the text content of the node, one decoration from \<open>pos + from\<close> to \<open>pos + to\<close> with the
  class \<^verbatim>\<open>autolink\<close>, and nothing else. The document is an argument that is only read.
\<close>

theorem getDecorations_paragraph_spans:
  "linkDecorator_init ed isValidDomain d =
     Some (Inr (concat (map
       (\<lambda>p. map (\<lambda>(from, to). \<lparr>dfrom = pos p + from, dto = pos p + to, dclass = ''autolink''\<rparr>)
                 (span_list isValidDomain (textContent ed (node p))))
       (findChildren ed d (\<lambda>n. type_name ed n = ''paragraph'')))))
   \<and> (\<forall>s. emitted_spans isValidDomain s = Some (Inr (span_list isValidDomain s)))"
proof
  let ?g = "\<lambda>p. map (\<lambda>(from, to). \<lparr>dfrom = pos p + from, dto = pos p + to, dclass = ''autolink''\<rparr>)
                 (span_list isValidDomain (textContent ed (node p)))"
  have fe: "forEach
          (\<lambda>paragraphNode decorations.
             iterateUris isValidDomain (textContent ed (node paragraphNode))
               (\<lambda>from to decorations.
                  decorations @
                    [Decoration_inline (pos paragraphNode + from) (pos paragraphNode + to)
                       ''autolink''])
               decorations)
          xs [] = Some (Inr ([] @ concat (map ?g xs)))" for xs
    by (rule forEach_append) (simp add: iterateUris_push Decoration_inline_def)
  show "linkDecorator_init ed isValidDomain d =
     Some (Inr (concat (map ?g (findChildren ed d (\<lambda>n. type_name ed n = ''paragraph'')))))"
    unfolding linkDecorator_init_def getDecorations_def fe by (simp add: DecorationSet_create_def)
  show "\<forall>s. emitted_spans isValidDomain s = Some (Inr (span_list isValidDomain s))"
    by (simp add: emitted_spans_eq span_list_def)
qed

theorem getDecorations_paragraph_spans_witness:
  "linkDecorator_init flat_editor all_valid
     [(''paragraph'', js ''see a.b''), (''heading'', js ''c.d''), (''paragraph'', js ''http://x'')]
   = Some (Inr [\<lparr>dfrom = 4, dto = 8, dclass = ''autolink''\<rparr>,
                \<lparr>dfrom = 14, dto = 23, dclass = ''autolink''\<rparr>])
   \<and> emitted_spans all_valid (js ''see a.b'') = Some (Inr [(4, 8)])
   \<and> span_list all_valid (js ''see a.b'') = [(4, 8)]
   \<and> emitted_spans all_valid (js ''http://x'') = Some (Inr [(0, 9)])
   \<and> span_list all_valid (js ''http://x'') = [(0, 9)]"
proof -
  have ev: "emitted_spans all_valid (js ''see a.b'') = Some (Inr [(4, 8)])"
    "emitted_spans all_valid (js ''http://x'') = Some (Inr [(0, 9)])"
    by (simp_all add: uri_eval)
  note t = getDecorations_paragraph_spans[of flat_editor all_valid
      "[(''paragraph'', js ''see a.b''), (''heading'', js ''c.d''), (''paragraph'', js ''http://x'')]"]
  from t ev have sl: "span_list all_valid (js ''see a.b'') = [(4, 8)]"
    "span_list all_valid (js ''http://x'') = [(0, 9)]"
    by simp_all
  from t sl have "linkDecorator_init flat_editor all_valid
     [(''paragraph'', js ''see a.b''), (''heading'', js ''c.d''), (''paragraph'', js ''http://x'')]
   = Some (Inr [\<lparr>dfrom = 4, dto = 8, dclass = ''autolink''\<rparr>,
                \<lparr>dfrom = 14, dto = 23, dclass = ''autolink''\<rparr>])"
    by (simp add: flat_editor_def js_def)
  with ev sl show ?thesis by simp
qed

lemma in_set_map_filter: "y \<in> set (List.map_filter f xs) \<longleftrightarrow> (\<exists>x \<in> set xs. f x = Some y)"
  by (induction xs) (auto simp: List.map_filter_simps split: option.splits)


lemma map_decoration_Some:
  "map_decoration f d = Some d' \<longleftrightarrow>
     (\<exists>a b. f (dfrom d) = Some a \<and> f (dto d) = Some b \<and> d' = d\<lparr>dfrom := a, dto := b\<rparr>)"
  by (auto simp: map_decoration_def split: option.splits)

lemma in_DecorationSet_map:
  "d' \<in> set (DecorationSet_map ds f doc') \<longleftrightarrow>
     (\<exists>d \<in> set ds. \<exists>a b. f (dfrom d) = Some a \<and> f (dto d) = Some b
        \<and> d' = d\<lparr>dfrom := a, dto := b\<rparr>)"
  by (simp add: DecorationSet_map_def in_set_map_filter map_decoration_Some)






end
